theory Spec2Isabelle
  imports Complex_Main "HOL-Library.Word" "HOL-Library.List_Lexorder" "HOL-Library.Multiset"
    "HOL-Library.AList" "HOL-Library.Product_Lexorder"
begin

unbundle bit_operations_syntax

section \<open>Data model\<close>

text \<open>
  A Go \<^verbatim>\<open>string\<close> and a Go \<^verbatim>\<open>[]byte\<close> are both sequences of bytes; Go compares strings
  bytewise and lexicographically, which is the order of \<open>List_Lexorder\<close> on lists of
  8-bit words. A \<^verbatim>\<open>rune\<close> (int32) only ever holds values assembled from at most 21 bits
  of input here, so it is an \<open>int\<close>; \<^verbatim>\<open>byte(x)\<close> is \<open>word_of_int\<close>, which keeps the low
  eight bits. Scores are \<^verbatim>\<open>float32\<close> in the source; the model computes them in \<open>real\<close>.
  Every score that the theorems below give a value to is a sum of the constants
  2.0, 1.0 and 0.5 with at most 128 summands, which float32 represents and adds
  exactly; of the two fractional bonuses only the sign is used.
\<close>

type_synonym byte = "8 word"
type_synonym gostring = "byte list"

definition B :: "string \<Rightarrow> gostring" where
  "B s = map of_char s"

text \<open>\<^verbatim>\<open>s[a:b]\<close> on a slice or string.\<close>

definition subslice :: "'a list \<Rightarrow> nat \<Rightarrow> nat \<Rightarrow> 'a list" where
  "subslice xs a b = take (b - a) (drop a xs)"

section \<open>Rune codec (runes.go)\<close>

definition decodeRune :: "gostring \<Rightarrow> int \<times> nat" where
  "decodeRune s =
    (if length s = 0 then (0, 0)
     else let b0 = s ! 0 in
       if b0 < 0x80 then (uint b0, 1)
       else if length s < 2 then (0xFFFD, 1)
       else if b0 < 0xE0 then
         (push_bit 6 (uint (b0 AND 0x1F)) OR uint (s ! 1 AND 0x3F), 2)
       else if length s < 3 then (0xFFFD, 1)
       else if b0 < 0xF0 then
         (push_bit 12 (uint (b0 AND 0x0F)) OR push_bit 6 (uint (s ! 1 AND 0x3F))
            OR uint (s ! 2 AND 0x3F), 3)
       else if length s < 4 then (0xFFFD, 1)
       else
         (push_bit 18 (uint (b0 AND 0x07)) OR push_bit 12 (uint (s ! 1 AND 0x3F))
            OR push_bit 6 (uint (s ! 2 AND 0x3F)) OR uint (s ! 3 AND 0x3F), 4))"

text \<open>
  \<^verbatim>\<open>encodeRune(buf, r)\<close> writes \<^verbatim>\<open>buf[0..n)\<close> and returns \<open>n\<close>; the model returns the bytes
  written, whose length is \<open>n\<close>.
\<close>

definition encodeRune :: "int \<Rightarrow> byte list" where
  "encodeRune r =
    (if r < 0x80 then
       (if 65 \<le> r \<and> r \<le> 90 then [word_of_int (r + 32)] else [word_of_int r])
     else if r < 0x800 then
       [word_of_int (0xC0 OR drop_bit 6 r), word_of_int (0x80 OR (r AND 0x3F))]
     else if r < 0x10000 then
       [word_of_int (0xE0 OR drop_bit 12 r), word_of_int (0x80 OR (drop_bit 6 r AND 0x3F)),
        word_of_int (0x80 OR (r AND 0x3F))]
     else
       [word_of_int (0xF0 OR drop_bit 18 r), word_of_int (0x80 OR (drop_bit 12 r AND 0x3F)),
        word_of_int (0x80 OR (drop_bit 6 r AND 0x3F)), word_of_int (0x80 OR (r AND 0x3F))])"

text \<open>
  The sequence length that \<^verbatim>\<open>decodeRune\<close> reads off a leading byte: the three
  comparisons \<^verbatim>\<open>b0 < 0x80\<close>, \<^verbatim>\<open>b0 < 0xE0\<close>, \<^verbatim>\<open>b0 < 0xF0\<close> in the order of the source.
\<close>

definition impliedLen :: "byte \<Rightarrow> nat" where
  "impliedLen b0 = (if b0 < 0x80 then 1 else if b0 < 0xE0 then 2 else if b0 < 0xF0 then 3 else 4)"

lemma decodeRune_size_pos: "s \<noteq> [] \<Longrightarrow> 1 \<le> snd (decodeRune s)"
  by (simp add: decodeRune_def Let_def)

lemma decodeRune_size_le: "snd (decodeRune s) \<le> length s"
  by (cases s) (auto simp add: decodeRune_def Let_def Suc_le_eq)

lemma decodeRune_drop_pos:
  "(rune, sz) = decodeRune (drop i s) \<Longrightarrow> i < length s \<Longrightarrow> 0 < sz"
  using decodeRune_size_pos [of "drop i s"] by (cases "decodeRune (drop i s)") auto

section \<open>Normalizer and tokenizer (runtime\_search.go)\<close>

text \<open>
  A fixed array of the scratch context together with its length field (for example
  \<^verbatim>\<open>queryNormalized [2048]byte\<close> with \<^verbatim>\<open>queryNormLen\<close>) is modelled by the list of its first
  \<open>len\<close> elements, and the array's size is passed where the source passes the full slice.
  \<^verbatim>\<open>buffer[*length] = r; *length++\<close> appends one element. The source never reads such an
  array at or beyond its length field.
\<close>

definition lowerASCII :: "byte \<Rightarrow> byte" where
  "lowerASCII r = (if 65 \<le> r \<and> r \<le> 90 then r + 32 else r)"

function normalizeText_loop :: "gostring \<Rightarrow> int \<Rightarrow> nat \<Rightarrow> byte list \<Rightarrow> byte list" where
  "normalizeText_loop text maxLen i buffer =
    (if i < length text \<and> int (length buffer) < maxLen then
       (let r = text ! i in
        if r < 128 then
          normalizeText_loop text maxLen (i + 1) (buffer @ [lowerASCII r])
        else
          (case decodeRune (drop i text) of (rune, sz) \<Rightarrow>
            if int (length buffer) + 4 \<le> maxLen then
              normalizeText_loop text maxLen (i + sz) (buffer @ encodeRune rune)
            else
              normalizeText_loop text maxLen (i + sz) buffer))
     else buffer)"
  by pat_completeness auto
termination
  by (relation "measure (\<lambda>(text, maxLen, i, buffer). length text - i)")
     (auto dest!: decodeRune_drop_pos)

declare normalizeText_loop.simps [simp del]

text \<open>
  \<^verbatim>\<open>normalizeText(text, buffer, &length)\<close> with \<open>cap = len(buffer)\<close>; the result is
  \<^verbatim>\<open>buffer[:length]\<close>.
\<close>

definition normalizeText :: "gostring \<Rightarrow> nat \<Rightarrow> byte list" where
  "normalizeText text cap = normalizeText_loop text (int cap - 4) 0 []"

text \<open>
  The table \<^verbatim>\<open>wordBoundaryLUT\<close> of engine.go: space, tab, newline, carriage return, and
  \<^verbatim>\<open>. , ; : ! ? - _ / \ ( ) [ ] { } " '\<close>, by byte value in that order.
\<close>

definition wordBoundaryLUT :: "byte \<Rightarrow> bool" where
  "wordBoundaryLUT b \<longleftrightarrow>
     b \<in> set [32, 9, 10, 13, 46, 44, 59, 58, 33, 63, 45, 95, 47, 92, 40, 41, 91, 93, 123, 125, 34, 39]"

text \<open>
  \<^verbatim>\<open>splitWords\<close>: the arrays \<^verbatim>\<open>starts\<close> and \<^verbatim>\<open>ends\<close> share the counter \<^verbatim>\<open>*count\<close>, which is the
  length of both lists. The loop state is \<open>(i, start)\<close> and the two lists.
\<close>

function splitWords_loop ::
  "byte list \<Rightarrow> nat \<Rightarrow> nat \<Rightarrow> nat \<Rightarrow> nat list \<Rightarrow> nat list \<Rightarrow> nat \<times> nat list \<times> nat list" where
  "splitWords_loop normalizedText maxWords i start starts ends =
    (if i < length normalizedText \<and> length starts < maxWords then
       (if wordBoundaryLUT (normalizedText ! i) then
          (if i > start then
             splitWords_loop normalizedText maxWords (i + 1) (i + 1) (starts @ [start]) (ends @ [i])
           else
             splitWords_loop normalizedText maxWords (i + 1) (i + 1) starts ends)
        else splitWords_loop normalizedText maxWords (i + 1) start starts ends)
     else (start, starts, ends))"
  by pat_completeness auto
termination
  by (relation "measure (\<lambda>(t, m, i, s, ss, es). length t - i)") auto

declare splitWords_loop.simps [simp del]

definition splitWords :: "byte list \<Rightarrow> nat \<Rightarrow> nat \<Rightarrow> nat list \<times> nat list" where
  "splitWords normalizedText lenStarts lenEnds =
    (let maxWords = (if lenEnds < lenStarts then lenEnds else lenStarts) in
     case splitWords_loop normalizedText maxWords 0 0 [] [] of
       (start, starts, ends) \<Rightarrow>
         if start < length normalizedText \<and> length starts < maxWords then
           (starts @ [start], ends @ [length normalizedText])
         else (starts, ends))"

section \<open>Scratch context (context.go)\<close>

text \<open>
  Each array of \<^verbatim>\<open>Context\<close> is held up to its counter: \<open>queryNormalized\<close> is
  \<^verbatim>\<open>queryNormalized[:queryNormLen]\<close>, the word spans are held up to their word count, the
  three candidate arrays up to \<^verbatim>\<open>candidateCount\<close> and \<open>candidateSet\<close> up to
  \<^verbatim>\<open>candidateSetLen\<close>. The counters are the lengths of the lists; the array sizes are the
  constants below. \<^verbatim>\<open>reset\<close> sets every counter to 0, which is the empty context, so a
  context taken from the pool is \<open>emptyContext\<close>.
\<close>

record Context =
  queryNormalized :: "byte list"
  docNormalized :: "byte list"
  queryWordStarts :: "nat list"
  queryWordEnds :: "nat list"
  docWordStarts :: "nat list"
  docWordEnds :: "nat list"
  candidateIDs :: "gostring list"
  candidateTexts :: "gostring list"
  candidateScores :: "real list"
  candidateSet :: "gostring list"

abbreviation queryNormLen :: "Context \<Rightarrow> nat" where
  "queryNormLen ctx \<equiv> length (queryNormalized ctx)"

abbreviation docNormLen :: "Context \<Rightarrow> nat" where
  "docNormLen ctx \<equiv> length (docNormalized ctx)"

abbreviation queryWordCount :: "Context \<Rightarrow> nat" where
  "queryWordCount ctx \<equiv> length (queryWordStarts ctx)"

abbreviation docWordCount :: "Context \<Rightarrow> nat" where
  "docWordCount ctx \<equiv> length (docWordStarts ctx)"

abbreviation candidateCount :: "Context \<Rightarrow> nat" where
  "candidateCount ctx \<equiv> length (candidateIDs ctx)"

abbreviation candidateSetLen :: "Context \<Rightarrow> nat" where
  "candidateSetLen ctx \<equiv> length (candidateSet ctx)"

definition queryNormalized_len :: nat where "queryNormalized_len = 2048"
definition docNormalized_len :: nat where "docNormalized_len = 8192"
definition queryWords_len :: nat where "queryWords_len = 128"
definition docWords_len :: nat where "docWords_len = 256"
definition candidates_len :: nat where "candidates_len = 1024"
definition candidateSet_len :: nat where "candidateSet_len = 1024"

definition emptyContext :: Context where
  "emptyContext = \<lparr>queryNormalized = [], docNormalized = [], queryWordStarts = [],
     queryWordEnds = [], docWordStarts = [], docWordEnds = [], candidateIDs = [],
     candidateTexts = [], candidateScores = [], candidateSet = []\<rparr>"

section \<open>Byte-level helpers (engine.go and the unsafe helpers)\<close>

text \<open>
  \<^verbatim>\<open>memEqual(a, b, length)\<close> compares \<open>length div wordSize\<close> machine words and then the
  remaining bytes one by one. A machine word read at \<^verbatim>\<open>&a[i*wordSize]\<close> is the \<open>wordSize\<close>
  bytes from that offset. \<^verbatim>\<open>unsafe.Sizeof(uintptr(0))\<close> is 8 on a 64-bit platform.
\<close>

definition wordSize :: nat where "wordSize = 8"

definition memEqual :: "byte list \<Rightarrow> byte list \<Rightarrow> nat \<Rightarrow> bool" where
  "memEqual a b len =
    (if len = 0 then True
     else
       let wordsToCompare = len div wordSize in
       if list_ex (\<lambda>i. subslice a (i * wordSize) (i * wordSize + wordSize)
                       \<noteq> subslice b (i * wordSize) (i * wordSize + wordSize)) [0..<wordsToCompare]
       then False
       else
         let remaining = len mod wordSize; offset = wordsToCompare * wordSize in
         \<not> list_ex (\<lambda>i. a ! (offset + i) \<noteq> b ! (offset + i)) [0..<remaining])"

definition containsAnyQueryBytes :: "byte list \<Rightarrow> byte list \<Rightarrow> bool" where
  "containsAnyQueryBytes doc query =
    (if length query = 0 then False
     else
       let queryBytes = fold (\<lambda>b t. t(b := True)) query (\<lambda>_. False) in
       list_ex queryBytes doc)"

definition trigramWord :: "byte \<Rightarrow> byte \<Rightarrow> byte \<Rightarrow> 32 word" where
  "trigramWord b0 b1 b2 = push_bit 16 (ucast b0) OR push_bit 8 (ucast b1) OR ucast b2"

definition containsTrigram :: "byte list \<Rightarrow> byte list \<Rightarrow> bool" where
  "containsTrigram text trigram =
    (if length text < 3 \<or> length trigram \<noteq> 3 then False
     else
       let tw = trigramWord (trigram ! 0) (trigram ! 1) (trigram ! 2) in
       list_ex (\<lambda>i. trigramWord (text ! i) (text ! (i + 1)) (text ! (i + 2)) = tw)
         [0..<length text - 2])"

definition containsSubsequence :: "byte list \<Rightarrow> byte list \<Rightarrow> bool" where
  "containsSubsequence haystack needle =
    (if length needle = 0 then True
     else if length haystack < length needle then False
     else if length needle > 1 \<and>
        (case find (\<lambda>i. haystack ! i = needle ! 0) [0..<length haystack - length needle + 1] of
           None \<Rightarrow> True
         | Some firstPos \<Rightarrow>
             \<not> list_ex (\<lambda>i. haystack ! i = needle ! (length needle - 1))
                 [firstPos + length needle - 1..<length haystack])
       then False
     else list_ex (\<lambda>i. memEqual (drop i haystack) needle (length needle))
            [0..<length haystack - length needle + 1])"

section \<open>Scorer (runtime\_search.go)\<close>

text \<open>
  The methods of \<^verbatim>\<open>RuntimeSearch\<close> that do not touch its fields are modelled without the
  receiver. A \<^verbatim>\<open>for i := 0; i < n; i++\<close> loop runs over the index list \<open>[0..<n]\<close>; a
  \<^verbatim>\<open>break\<close> ends the recursion and a \<^verbatim>\<open>continue\<close> goes on with the rest of the list.
\<close>

text \<open>
  The body of the inner loop of \<^verbatim>\<open>scoreDocument\<close>, for the query word
  \<open>[queryStart, queryEnd)\<close> and the document word \<open>j\<close>: the result is the new value of
  \<^verbatim>\<open>bestMatchForThisQuery\<close> and whether the iteration ended in the exact-match branch
  (which increments \<^verbatim>\<open>exactMatches\<close> and breaks).
\<close>

definition scoreDocument_docWord :: "Context \<Rightarrow> nat \<Rightarrow> nat \<Rightarrow> nat \<Rightarrow> real \<Rightarrow> real \<times> bool" where
  "scoreDocument_docWord ctx queryStart queryEnd j best =
    (let queryLen = queryEnd - queryStart;
         queryFirstByte = queryNormalized ctx ! queryStart;
         docStart = docWordStarts ctx ! j;
         docEnd = docWordEnds ctx ! j;
         docLen = docEnd - docStart
     in
       if docNormalized ctx ! docStart \<noteq> queryFirstByte \<and> docLen \<noteq> queryLen then
         (best, False)
       else if queryLen = docLen then
         (if memEqual (subslice (queryNormalized ctx) queryStart queryEnd)
                      (subslice (docNormalized ctx) docStart docEnd) queryLen
          then (2, True)
          else (best, False))
       else
         (let prefixScore =
            (if docLen > queryLen then
               (if memEqual (subslice (queryNormalized ctx) queryStart queryEnd)
                            (subslice (docNormalized ctx) docStart (docStart + queryLen)) queryLen
                then 1 else 0)
             else if queryLen > docLen then
               (if memEqual (subslice (queryNormalized ctx) queryStart (queryStart + docLen))
                            (subslice (docNormalized ctx) docStart docEnd) docLen
                then 1 else 0)
             else (0 :: real))
          in (if prefixScore > best then prefixScore else best, False)))"

text \<open>The inner loop over the document words \<open>js\<close>, stopping at the first break.\<close>

fun scoreDocument_docWords :: "Context \<Rightarrow> nat \<Rightarrow> nat \<Rightarrow> nat list \<Rightarrow> real \<Rightarrow> real \<times> bool" where
  "scoreDocument_docWords ctx queryStart queryEnd [] best = (best, False)"
| "scoreDocument_docWords ctx queryStart queryEnd (j # js) best =
    (case scoreDocument_docWord ctx queryStart queryEnd j best of
       (best', True) \<Rightarrow> (best', True)
     | (best', False) \<Rightarrow> scoreDocument_docWords ctx queryStart queryEnd js best')"

text \<open>The outer loop over the query words, carrying \<^verbatim>\<open>totalScore\<close> and \<^verbatim>\<open>exactMatches\<close>.\<close>

fun scoreDocument_queryWords :: "Context \<Rightarrow> nat list \<Rightarrow> real \<Rightarrow> nat \<Rightarrow> real \<times> nat" where
  "scoreDocument_queryWords ctx [] totalScore exactMatches = (totalScore, exactMatches)"
| "scoreDocument_queryWords ctx (i # is) totalScore exactMatches =
    (case scoreDocument_docWords ctx (queryWordStarts ctx ! i) (queryWordEnds ctx ! i)
            [0..<docWordCount ctx] 0 of
       (bestMatchForThisQuery, exact) \<Rightarrow>
         scoreDocument_queryWords ctx is (totalScore + bestMatchForThisQuery)
           (if exact then exactMatches + 1 else exactMatches))"

text \<open>
  \<^verbatim>\<open>scoreSubstring\<close>: the stride \<open>max(1, queryLen/10)\<close> is computed inside the loop function
  (it does not change during the loop), which makes its termination evident.
\<close>

function scoreSubstring_loop :: "Context \<Rightarrow> nat \<Rightarrow> nat \<Rightarrow> nat" where
  "scoreSubstring_loop ctx i matches =
    (let queryLen = queryNormLen ctx; stride = max 1 (queryLen div 10) in
     if i + 3 \<le> queryLen then
       scoreSubstring_loop ctx (i + stride)
         (if containsTrigram (docNormalized ctx) (subslice (queryNormalized ctx) i (i + 3))
          then matches + 1 else matches)
     else matches)"
  by pat_completeness auto
termination
  by (relation "measure (\<lambda>(ctx, i, m). queryNormLen ctx + 1 - i)") (auto simp add: max_def)

declare scoreSubstring_loop.simps [simp del]

definition scoreSubstring :: "Context \<Rightarrow> real" where
  "scoreSubstring ctx =
    (if queryNormLen ctx < 3 then 0
     else
       let queryLen = queryNormLen ctx;
           stride = max 1 (queryLen div 10);
           matches = scoreSubstring_loop ctx 0 0
       in
         if matches = 0 then 0
         else
           let maxPossibleMatches = (queryLen - 2) div stride + 1 in
           real matches / real maxPossibleMatches * 0.3)"

definition scoreReversedWords :: "Context \<Rightarrow> real" where
  "scoreReversedWords ctx =
    (if queryWordCount ctx < 2 then 0
     else
       let matchCount =
         fold (\<lambda>i matchCount.
            let queryStart = queryWordStarts ctx ! i;
                queryEnd = queryWordEnds ctx ! i;
                queryLen = queryEnd - queryStart
            in
              if queryLen < 3 then matchCount
              else if list_ex (\<lambda>j.
                   let docStart = docWordStarts ctx ! j;
                       docEnd = docWordEnds ctx ! j;
                       docLen = docEnd - docStart
                   in
                     \<not> (\<bar>real_of_int (int docLen - int queryLen)\<bar>
                          > min (real docLen) (real queryLen) / 2)
                     \<and> (containsSubsequence (subslice (docNormalized ctx) docStart docEnd)
                            (subslice (queryNormalized ctx) queryStart queryEnd)
                        \<or> containsSubsequence (subslice (queryNormalized ctx) queryStart queryEnd)
                            (subslice (docNormalized ctx) docStart docEnd)))
                 [0..<docWordCount ctx]
              then matchCount + 1
              else matchCount)
           [0..<queryWordCount ctx] (0 :: nat)
       in
         if matchCount \<ge> 2 then real matchCount / real (queryWordCount ctx) * 0.8 else 0)"

text \<open>
  \<^verbatim>\<open>scoreDocument\<close> returns the score and leaves the normalized document and its word spans
  in the context.
\<close>

definition scoreDocument :: "gostring \<Rightarrow> Context \<Rightarrow> real \<times> Context" where
  "scoreDocument text ctx =
    (if length text = 0 \<or> queryWordCount ctx = 0 then (0, ctx)
     else
       let ctx = ctx\<lparr>docNormalized := normalizeText text docNormalized_len\<rparr> in
       if \<not> containsAnyQueryBytes (docNormalized ctx) (queryNormalized ctx) then (0, ctx)
       else
         case splitWords (docNormalized ctx) docWords_len docWords_len of
           (starts, ends) \<Rightarrow>
             let ctx = ctx\<lparr>docWordStarts := starts, docWordEnds := ends\<rparr> in
             case scoreDocument_queryWords ctx [0..<queryWordCount ctx] 0 0 of
               (totalScore, exactMatches) \<Rightarrow>
                 if exactMatches = queryWordCount ctx then
                   (totalScore + real_of_int (int exactMatches - 1) * 0.5, ctx)
                 else
                   let totalScore =
                         (if exactMatches > 1
                          then totalScore + real_of_int (int exactMatches - 1) * 0.5
                          else totalScore);
                       totalScore =
                         (if queryNormLen ctx \<ge> 3 \<and> exactMatches = 0 \<and> totalScore = 0
                          then totalScore + scoreSubstring ctx
                          else totalScore);
                       totalScore =
                         (if queryWordCount ctx \<ge> 2 \<and> exactMatches < queryWordCount ctx
                             \<and> totalScore < real (queryWordCount ctx)
                          then totalScore + scoreReversedWords ctx
                          else totalScore)
                   in (totalScore, ctx))"

section \<open>Engine state and results (engine.go)\<close>

text \<open>
  A Go map is an association list with distinct keys: lookup is \<open>map_of\<close>, assignment is
  \<open>AList.update\<close>, \<^verbatim>\<open>len\<close> is the length, and \<^verbatim>\<open>range\<close> visits the entries in list order.
  Go leaves that order unspecified; every order of the corpus is a list the theorems
  quantify over. Only \<^verbatim>\<open>cachedData\<close> is tested against \<^verbatim>\<open>nil\<close>, so only it is an option.
\<close>

record SearchResult =
  ID :: gostring
  Text :: gostring
  Score :: real

record RuntimeSearch =
  cachedData :: "(gostring \<times> gostring) list option"
  cachedWordMap :: "(gostring \<times> gostring list) list"
  cachedTrigrams :: "(gostring \<times> gostring list) list"
  indexBuffer :: "byte list"

abbreviation indexBufferLen :: "RuntimeSearch \<Rightarrow> nat" where
  "indexBufferLen rs \<equiv> length (indexBuffer rs)"

definition indexBuffer_len :: nat where "indexBuffer_len = 4096"

definition NewRuntimeSearch :: RuntimeSearch where
  "NewRuntimeSearch = \<lparr>cachedData = None, cachedWordMap = [], cachedTrigrams = [], indexBuffer = []\<rparr>"

text \<open>
  A \<^verbatim>\<open>SearchEngine\<close> holds nothing but the pointer \<^verbatim>\<open>rs\<close> to its \<^verbatim>\<open>RuntimeSearch\<close>; its methods
  are modelled on that state, which they return updated.
\<close>

text \<open>The faults of the Go runtime that the result materializers can raise.\<close>

datatype fault = MakeSliceLenOutOfRange | SliceBoundsOutOfRange | IndexOutOfRange

definition compareScoreAndID :: "real \<Rightarrow> gostring \<Rightarrow> real \<Rightarrow> gostring \<Rightarrow> int" where
  "compareScoreAndID score1 id1 score2 id2 =
    (if score1 > score2 then 1
     else if score1 < score2 then - 1
     else if id1 < id2 then 1
     else if id1 > id2 then - 1
     else 0)"

section \<open>Index store (runtime\_search.go)\<close>

text \<open>
  \<^verbatim>\<open>m[k] = append(m[k], docID)\<close> when the key exists, \<^verbatim>\<open>m[k] = []string{docID}\<close> when not.
\<close>

definition appendPosting ::
  "gostring \<Rightarrow> gostring \<Rightarrow> (gostring \<times> gostring list) list \<Rightarrow> (gostring \<times> gostring list) list" where
  "appendPosting k docID m =
    (case map_of m k of
       Some existingIDs \<Rightarrow> AList.update k (existingIDs @ [docID]) m
     | None \<Rightarrow> AList.update k [docID] m)"

function buildIndex_trigrams :: "gostring \<Rightarrow> nat \<Rightarrow> RuntimeSearch \<Rightarrow> RuntimeSearch" where
  "buildIndex_trigrams docID i rs =
    (let stride = max 1 (indexBufferLen rs div 100) in
     if i + 3 \<le> indexBufferLen rs then
       buildIndex_trigrams docID (i + stride)
         (rs\<lparr>cachedTrigrams :=
               appendPosting (subslice (indexBuffer rs) i (i + 3)) docID (cachedTrigrams rs)\<rparr>)
     else rs)"
  by pat_completeness auto
termination
  by (relation "measure (\<lambda>(docID, i, rs). indexBufferLen rs + 1 - i)") (auto simp add: max_def)

declare buildIndex_trigrams.simps [simp del]

text \<open>The body of the loop \<^verbatim>\<open>for docID, text := range data\<close> of \<^verbatim>\<open>buildIndex\<close>.\<close>

definition buildIndex_doc :: "gostring \<times> gostring \<Rightarrow> RuntimeSearch \<Rightarrow> RuntimeSearch" where
  "buildIndex_doc = (\<lambda>(docID, text) rs.
    let rs = rs\<lparr>cachedData := map_option (AList.update docID text) (cachedData rs)\<rparr>;
        rs = rs\<lparr>indexBuffer := normalizeText text indexBuffer_len\<rparr>
    in
      case splitWords (indexBuffer rs) 256 256 of
        (wordStarts, wordEnds) \<Rightarrow>
          let rs =
            fold (\<lambda>i rs.
                let start = wordStarts ! i; endi = wordEnds ! i in
                if start < endi \<and> endi \<le> indexBufferLen rs then
                  rs\<lparr>cachedWordMap :=
                       appendPosting (subslice (indexBuffer rs) start endi) docID (cachedWordMap rs)\<rparr>
                else rs)
              [0..<length wordStarts] rs
          in
            if indexBufferLen rs \<ge> 3 then buildIndex_trigrams docID 0 rs else rs)"

definition buildIndex :: "RuntimeSearch \<Rightarrow> (gostring \<times> gostring) list \<Rightarrow> RuntimeSearch" where
  "buildIndex rs data =
    fold buildIndex_doc data (rs\<lparr>cachedData := Some [], cachedWordMap := [], cachedTrigrams := []\<rparr>)"

section \<open>Candidate discovery (runtime\_search.go)\<close>

fun searchDirect_loop :: "bool \<Rightarrow> (gostring \<times> gostring) list \<Rightarrow> Context \<Rightarrow> Context" where
  "searchDirect_loop hasLongWords [] ctx = ctx"
| "searchDirect_loop hasLongWords ((docID, text) # rest) ctx =
    (if candidateCount ctx \<ge> candidates_len then ctx
     else if hasLongWords \<and> length text < queryNormLen ctx div 2 then
       searchDirect_loop hasLongWords rest ctx
     else
       case scoreDocument text ctx of
         (score, ctx) \<Rightarrow>
           if score > 0 then
             searchDirect_loop hasLongWords rest
               (ctx\<lparr>candidateIDs := candidateIDs ctx @ [docID],
                    candidateTexts := candidateTexts ctx @ [text],
                    candidateScores := candidateScores ctx @ [score]\<rparr>)
           else searchDirect_loop hasLongWords rest ctx)"

definition searchDirect :: "(gostring \<times> gostring) list \<Rightarrow> Context \<Rightarrow> Context" where
  "searchDirect data ctx =
    (let hasLongWords =
       list_ex (\<lambda>i. queryWordEnds ctx ! i - queryWordStarts ctx ! i > 10) [0..<queryWordCount ctx]
     in searchDirect_loop hasLongWords data ctx)"

text \<open>
  \<^verbatim>\<open>addToCandidateSet\<close>: the binary search, and the insertion
  \<^verbatim>\<open>copy(set[left+1:len+1], set[left:len]); set[left] = docID; len++\<close>, which moves the
  entries from \<open>left\<close> on one place up and puts \<open>docID\<close> at \<open>left\<close>.
\<close>

function addToCandidateSet_search :: "gostring list \<Rightarrow> gostring \<Rightarrow> nat \<Rightarrow> nat \<Rightarrow> nat" where
  "addToCandidateSet_search cset docID left right =
    (if left < right then
       (let mid = (left + right) div 2 in
        if cset ! mid < docID then addToCandidateSet_search cset docID (mid + 1) right
        else addToCandidateSet_search cset docID left mid)
     else left)"
  by pat_completeness auto
termination
  by (relation "measure (\<lambda>(cset, docID, left, right). right - left)") auto

declare addToCandidateSet_search.simps [simp del]

fun addToCandidateSet :: "gostring list \<Rightarrow> Context \<Rightarrow> Context" where
  "addToCandidateSet [] ctx = ctx"
| "addToCandidateSet (docID # docIDs) ctx =
    (if candidateSetLen ctx \<ge> candidateSet_len then ctx
     else
       let left = addToCandidateSet_search (candidateSet ctx) docID 0 (candidateSetLen ctx) in
       if left < candidateSetLen ctx \<and> candidateSet ctx ! left = docID then
         addToCandidateSet docIDs ctx
       else if candidateSetLen ctx < candidateSet_len then
         addToCandidateSet docIDs
           (ctx\<lparr>candidateSet := take left (candidateSet ctx) @ docID # drop left (candidateSet ctx)\<rparr>)
       else addToCandidateSet docIDs ctx)"

lemma addToCandidateSet_queryNormalized [simp]:
  "queryNormalized (addToCandidateSet docIDs ctx) = queryNormalized ctx"
  by (induction docIDs ctx rule: addToCandidateSet.induct) (simp_all add: Let_def)

definition findCandidates_rarest :: "RuntimeSearch \<Rightarrow> Context \<Rightarrow> gostring" where
  "findCandidates_rarest rs ctx =
    fst (fold (\<lambda>i (rarest, minCount).
           let start = queryWordStarts ctx ! i;
               endi = queryWordEnds ctx ! i;
               queryWord = subslice (queryNormalized ctx) start endi
           in
             case map_of (cachedWordMap rs) queryWord of
               Some docIDs \<Rightarrow>
                 if length docIDs < minCount then (queryWord, length docIDs)
                 else (rarest, minCount)
             | None \<Rightarrow> (rarest, minCount))
         [0..<queryWordCount ctx] ([], 9223372036854775807 :: nat))"

text \<open>The scan \<^verbatim>\<open>for word, docIDs := range rs.cachedWordMap\<close> for one query word.\<close>

definition findCandidates_prefix :: "RuntimeSearch \<Rightarrow> nat \<Rightarrow> nat \<Rightarrow> Context \<Rightarrow> Context" where
  "findCandidates_prefix rs start endi ctx =
    (let prefixLen = endi - start in
     fold (\<lambda>(word, docIDs) ctx.
         let wordLen = length word in
         if wordLen > prefixLen \<and> wordLen - prefixLen \<le> 10 then
           (if memEqual word (subslice (queryNormalized ctx) start endi) prefixLen
            then addToCandidateSet docIDs ctx else ctx)
         else if prefixLen > wordLen \<and> prefixLen - wordLen \<le> 10 then
           (if memEqual (subslice (queryNormalized ctx) start (start + wordLen)) word wordLen
            then addToCandidateSet docIDs ctx else ctx)
         else ctx)
       (cachedWordMap rs) ctx)"

definition findCandidates_words :: "RuntimeSearch \<Rightarrow> gostring \<Rightarrow> Context \<Rightarrow> Context" where
  "findCandidates_words rs rarest ctx =
    fold (\<lambda>i ctx.
        let start = queryWordStarts ctx ! i;
            endi = queryWordEnds ctx ! i;
            queryWord = subslice (queryNormalized ctx) start endi
        in
          if queryWord = rarest then ctx
          else
            let ctx = (case map_of (cachedWordMap rs) queryWord of
                         Some docIDs \<Rightarrow> addToCandidateSet docIDs ctx
                       | None \<Rightarrow> ctx)
            in findCandidates_prefix rs start endi ctx)
      [0..<queryWordCount ctx] ctx"

function findCandidates_trigrams :: "RuntimeSearch \<Rightarrow> nat \<Rightarrow> Context \<Rightarrow> Context" where
  "findCandidates_trigrams rs i ctx =
    (if i + 3 \<le> queryNormLen ctx then
       (case map_of (cachedTrigrams rs) (subslice (queryNormalized ctx) i (i + 3)) of
          Some docIDs \<Rightarrow>
            (if candidateSetLen (addToCandidateSet docIDs ctx) > 100
             then addToCandidateSet docIDs ctx
             else findCandidates_trigrams rs (i + 2) (addToCandidateSet docIDs ctx))
        | None \<Rightarrow> findCandidates_trigrams rs (i + 2) ctx)
     else ctx)"
  by pat_completeness auto
termination
  by (relation "measure (\<lambda>(rs, i, ctx). queryNormLen ctx + 1 - i)") auto

declare findCandidates_trigrams.simps [simp del]

definition findCandidates :: "RuntimeSearch \<Rightarrow> Context \<Rightarrow> Context" where
  "findCandidates rs ctx =
    (let ctx = ctx\<lparr>candidateSet := []\<rparr>;
         rarest = findCandidates_rarest rs ctx;
         ctx = (if rarest \<noteq> [] then
                  (case map_of (cachedWordMap rs) rarest of
                     Some docIDs \<Rightarrow> addToCandidateSet docIDs ctx
                   | None \<Rightarrow> ctx)
                else ctx);
         ctx = findCandidates_words rs rarest ctx
     in
       if candidateSetLen ctx = 0 \<and> queryNormLen ctx \<ge> 3 \<and> queryNormLen ctx \<le> 100 then
         findCandidates_trigrams rs 0 ctx
       else ctx)"

fun scoreCandidates_loop :: "RuntimeSearch \<Rightarrow> nat list \<Rightarrow> Context \<Rightarrow> Context" where
  "scoreCandidates_loop rs [] ctx = ctx"
| "scoreCandidates_loop rs (i # is) ctx =
    (if candidateCount ctx \<ge> candidates_len then ctx
     else
       let docID = candidateSet ctx ! i in
       case (case cachedData rs of None \<Rightarrow> None | Some cd \<Rightarrow> map_of cd docID) of
         None \<Rightarrow> scoreCandidates_loop rs is ctx
       | Some text \<Rightarrow>
           (case scoreDocument text ctx of
              (score, ctx) \<Rightarrow>
                if score > 0 then
                  scoreCandidates_loop rs is
                    (ctx\<lparr>candidateIDs := candidateIDs ctx @ [docID],
                         candidateTexts := candidateTexts ctx @ [text],
                         candidateScores := candidateScores ctx @ [score]\<rparr>)
                else scoreCandidates_loop rs is ctx))"

definition scoreCandidates :: "RuntimeSearch \<Rightarrow> Context \<Rightarrow> Context" where
  "scoreCandidates rs ctx =
    scoreCandidates_loop rs [0..<candidateSetLen ctx]
      (ctx\<lparr>candidateIDs := [], candidateTexts := [], candidateScores := []\<rparr>)"

text \<open>
  The sampling loop of \<^verbatim>\<open>searchWithCache\<close>: true when a sampled entry is missing from the
  cache or differs (\<^verbatim>\<open>needsRebuild = true\<close>).
\<close>

fun searchWithCache_sample ::
  "(gostring \<times> gostring) list \<Rightarrow> nat \<Rightarrow> (gostring \<times> gostring) list \<Rightarrow> nat \<Rightarrow> bool" where
  "searchWithCache_sample cd maxCheck [] checkCount = False"
| "searchWithCache_sample cd maxCheck ((docID, text) # rest) checkCount =
    (case map_of cd docID of
       None \<Rightarrow> True
     | Some cachedText \<Rightarrow>
         if cachedText \<noteq> text then True
         else if checkCount + 1 \<ge> maxCheck then False
         else searchWithCache_sample cd maxCheck rest (checkCount + 1))"

definition searchWithCache ::
  "RuntimeSearch \<Rightarrow> (gostring \<times> gostring) list \<Rightarrow> Context \<Rightarrow> RuntimeSearch \<times> Context" where
  "searchWithCache rs data ctx =
    (let needsRebuild =
           (case cachedData rs of
              None \<Rightarrow> True
            | Some cd \<Rightarrow>
                if length cd \<noteq> length data then True
                else searchWithCache_sample cd (min (length data div 10) 5) data 0);
         rs = (if needsRebuild then buildIndex rs data else rs);
         ctx = findCandidates rs ctx;
         ctx = scoreCandidates rs ctx
     in (rs, ctx))"

section \<open>Ranker (runtime\_search.go)\<close>

text \<open>
  \<^verbatim>\<open>insertionSort\<close>: the source's inner index \<open>j\<close> runs down to \<open>left - 1\<close>, which is \<open>-1\<close>
  for \<open>left = 0\<close>; the model carries \<open>k = j + 1\<close>, a natural number, so the source's
  \<^verbatim>\<open>j >= left\<close> is \<open>k > left\<close>, its \<^verbatim>\<open>[j]\<close> is \<open>! (k - 1)\<close> and its \<^verbatim>\<open>[j+1]\<close> is \<open>[k := _]\<close>.
\<close>

function insertionSort_shift :: "Context \<Rightarrow> nat \<Rightarrow> nat \<Rightarrow> real \<Rightarrow> gostring \<Rightarrow> Context \<times> nat" where
  "insertionSort_shift ctx left k score docID =
    (if k > left \<and> (candidateScores ctx ! (k - 1) < score
          \<or> (candidateScores ctx ! (k - 1) = score \<and> candidateIDs ctx ! (k - 1) > docID))
     then
       insertionSort_shift
         (ctx\<lparr>candidateScores := (candidateScores ctx)[k := candidateScores ctx ! (k - 1)],
              candidateIDs := (candidateIDs ctx)[k := candidateIDs ctx ! (k - 1)],
              candidateTexts := (candidateTexts ctx)[k := candidateTexts ctx ! (k - 1)]\<rparr>)
         left (k - 1) score docID
     else (ctx, k))"
  by pat_completeness auto
termination
  by (relation "measure (\<lambda>(ctx, left, k, score, docID). k)") auto

declare insertionSort_shift.simps [simp del]

definition insertionSort_step :: "nat \<Rightarrow> nat \<Rightarrow> Context \<Rightarrow> Context" where
  "insertionSort_step left i ctx =
    (let score = candidateScores ctx ! i;
         docID = candidateIDs ctx ! i;
         text = candidateTexts ctx ! i
     in
       case insertionSort_shift ctx left i score docID of
         (ctx, k) \<Rightarrow>
           ctx\<lparr>candidateScores := (candidateScores ctx)[k := score],
               candidateIDs := (candidateIDs ctx)[k := docID],
               candidateTexts := (candidateTexts ctx)[k := text]\<rparr>)"

definition insertionSort :: "Context \<Rightarrow> nat \<Rightarrow> nat \<Rightarrow> Context" where
  "insertionSort ctx left right = fold (insertionSort_step left) [left + 1..<right + 1] ctx"

text \<open>
  \<^verbatim>\<open>shellSort\<close>: the gaps are 5, 3, 1 in the source; the test \<open>0 < gap\<close> only makes the
  inner loop a total function.
\<close>

function shellSort_shift :: "Context \<Rightarrow> nat \<Rightarrow> nat \<Rightarrow> real \<Rightarrow> gostring \<Rightarrow> Context \<times> nat" where
  "shellSort_shift ctx gap j score docID =
    (if 0 < gap \<and> j \<ge> gap \<and> (candidateScores ctx ! (j - gap) < score
          \<or> (candidateScores ctx ! (j - gap) = score \<and> candidateIDs ctx ! (j - gap) > docID))
     then
       shellSort_shift
         (ctx\<lparr>candidateScores := (candidateScores ctx)[j := candidateScores ctx ! (j - gap)],
              candidateIDs := (candidateIDs ctx)[j := candidateIDs ctx ! (j - gap)],
              candidateTexts := (candidateTexts ctx)[j := candidateTexts ctx ! (j - gap)]\<rparr>)
         gap (j - gap) score docID
     else (ctx, j))"
  by pat_completeness auto
termination
  by (relation "measure (\<lambda>(ctx, gap, j, score, docID). j)") auto

declare shellSort_shift.simps [simp del]

definition shellSort_step :: "nat \<Rightarrow> nat \<Rightarrow> Context \<Rightarrow> Context" where
  "shellSort_step gap i ctx =
    (let score = candidateScores ctx ! i;
         docID = candidateIDs ctx ! i;
         text = candidateTexts ctx ! i
     in
       case shellSort_shift ctx gap i score docID of
         (ctx, j) \<Rightarrow>
           ctx\<lparr>candidateScores := (candidateScores ctx)[j := score],
               candidateIDs := (candidateIDs ctx)[j := docID],
               candidateTexts := (candidateTexts ctx)[j := text]\<rparr>)"

definition shellSort :: "Context \<Rightarrow> Context" where
  "shellSort ctx =
    (let n = candidateCount ctx in
     fold (\<lambda>gap ctx. fold (shellSort_step gap) [gap..<n] ctx) [5, 3, 1] ctx)"

definition swapCandidates :: "Context \<Rightarrow> nat \<Rightarrow> nat \<Rightarrow> Context" where
  "swapCandidates ctx i j =
    ctx\<lparr>candidateScores :=
          (candidateScores ctx)[i := candidateScores ctx ! j, j := candidateScores ctx ! i],
        candidateIDs := (candidateIDs ctx)[i := candidateIDs ctx ! j, j := candidateIDs ctx ! i],
        candidateTexts :=
          (candidateTexts ctx)[i := candidateTexts ctx ! j, j := candidateTexts ctx ! i]\<rparr>"

function partition3Way_loop ::
  "Context \<Rightarrow> real \<Rightarrow> gostring \<Rightarrow> nat \<Rightarrow> nat \<Rightarrow> nat \<Rightarrow> Context \<times> nat \<times> nat" where
  "partition3Way_loop ctx pivot pivotID lt i gt =
    (if i < gt then
       (let cmp = compareScoreAndID (candidateScores ctx ! i) (candidateIDs ctx ! i) pivot pivotID in
        if cmp > 0 then partition3Way_loop (swapCandidates ctx lt i) pivot pivotID (lt + 1) (i + 1) gt
        else if cmp < 0 then
          partition3Way_loop (swapCandidates ctx i (gt - 1)) pivot pivotID lt i (gt - 1)
        else partition3Way_loop ctx pivot pivotID lt (i + 1) gt)
     else (ctx, lt, gt))"
  by pat_completeness auto
termination
  by (relation "measure (\<lambda>(ctx, pivot, pivotID, lt, i, gt). gt - i)") auto

declare partition3Way_loop.simps [simp del]

text \<open>\<^verbatim>\<open>partition3Way\<close> returns \<^verbatim>\<open>lt, gt - 1\<close>, and the context it has permuted.\<close>

definition partition3Way :: "Context \<Rightarrow> nat \<Rightarrow> nat \<Rightarrow> Context \<times> nat \<times> nat" where
  "partition3Way ctx low high =
    (let pivot = candidateScores ctx ! low;
         pivotID = candidateIDs ctx ! low
     in
       case partition3Way_loop ctx pivot pivotID low (low + 1) (high + 1) of
         (ctx, lt, gt) \<Rightarrow> (ctx, lt, gt - 1))"

lemma partition3Way_loop_bounds:
  "partition3Way_loop ctx pivot pivotID lt i gt = (ctx', lt', gt') \<Longrightarrow> lt < i \<Longrightarrow> i \<le> gt \<Longrightarrow>
   lt \<le> lt' \<and> lt' < gt' \<and> gt' \<le> gt"
proof (induction ctx pivot pivotID lt i gt rule: partition3Way_loop.induct)
  case (1 ctx pivot pivotID lt i gt)
  show ?case
  proof (cases "i < gt")
    case True
    let ?cmp = "compareScoreAndID (candidateScores ctx ! i) (candidateIDs ctx ! i) pivot pivotID"
    consider "?cmp > 0" | "\<not> ?cmp > 0" "?cmp < 0" | "\<not> ?cmp > 0" "\<not> ?cmp < 0" by blast
    then show ?thesis
    proof cases
      case 1
      with True "1.prems" have "partition3Way_loop (swapCandidates ctx lt i) pivot pivotID
          (lt + 1) (i + 1) gt = (ctx', lt', gt')"
        by (subst (asm) partition3Way_loop.simps) (simp add: Let_def)
      from "1.IH"(1) [OF True refl 1 this] "1.prems" True show ?thesis by simp
    next
      case 2
      with True "1.prems" have "partition3Way_loop (swapCandidates ctx i (gt - 1)) pivot pivotID
          lt i (gt - 1) = (ctx', lt', gt')"
        by (subst (asm) partition3Way_loop.simps) (simp add: Let_def)
      moreover have "i \<le> gt - 1" using True by simp
      ultimately show ?thesis using "1.IH"(2) [OF True refl 2] "1.prems" by force
    next
      case 3
      with True "1.prems" have "partition3Way_loop ctx pivot pivotID lt (i + 1) gt = (ctx', lt', gt')"
        by (subst (asm) partition3Way_loop.simps) (simp add: Let_def)
      from "1.IH"(3) [OF True refl 3 this] "1.prems" True show ?thesis by simp
    qed
  next
    case False
    with "1.prems" show ?thesis
      by (subst (asm) partition3Way_loop.simps) simp
  qed
qed

lemma partition3Way_bounds:
  "partition3Way ctx low high = (ctx', lt, gt) \<Longrightarrow> low \<le> high \<Longrightarrow>
   low \<le> lt \<and> lt \<le> gt \<and> gt \<le> high"
  unfolding partition3Way_def Let_def
  by (auto split: prod.splits dest!: partition3Way_loop_bounds)

text \<open>
  \<^verbatim>\<open>quickSort\<close>: the loop \<^verbatim>\<open>for low < high\<close> that ends an iteration with \<^verbatim>\<open>low = gt + 1\<close> or
  \<^verbatim>\<open>high = lt - 1\<close> is the outer recursive call. \<open>low\<close> is never negative; \<open>high\<close> is an
  \<open>int\<close> because \<^verbatim>\<open>lt - 1\<close> is \<open>-1\<close> when \<open>lt = 0\<close>.
\<close>

function quickSort :: "Context \<Rightarrow> nat \<Rightarrow> int \<Rightarrow> Context" where
  "quickSort ctx low high =
    (if int low < high then
       (if high - int low < 10 then insertionSort ctx low (nat high)
        else
          case partition3Way ctx low (nat high) of
            (ctx, lt, gt) \<Rightarrow>
              if int lt - int low < high - int gt then
                quickSort (quickSort ctx low (int lt - 1)) (gt + 1) high
              else
                quickSort (quickSort ctx (gt + 1) high) low (int lt - 1))
     else ctx)"
  by pat_completeness auto
termination
  apply (relation "measure (\<lambda>(ctx, low, high). nat (high - int low))")
      apply simp
     apply (auto dest!: partition3Way_bounds [OF sym])
  done

declare quickSort.simps [simp del]

definition sortCandidates :: "Context \<Rightarrow> Context" where
  "sortCandidates ctx =
    (let n = candidateCount ctx in
     if n \<le> 1 then ctx
     else if n \<le> 10 then insertionSort ctx 0 (n - 1)
     else if n \<le> 50 then shellSort ctx
     else quickSort ctx 0 (int n - 1))"

section \<open>Result materializer (runtime\_search.go)\<close>

text \<open>
  A \<^verbatim>\<open>nil\<close> slice and an empty slice are both the empty list. \<^verbatim>\<open>make([]SearchResult, limit)\<close>
  panics for a negative \<open>limit\<close>.
\<close>

definition resultAt :: "Context \<Rightarrow> nat \<Rightarrow> SearchResult" where
  "resultAt ctx i =
    \<lparr>ID = candidateIDs ctx ! i, Text = candidateTexts ctx ! i, Score = candidateScores ctx ! i\<rparr>"

definition convertToResultsOneAlloc :: "Context \<Rightarrow> int \<Rightarrow> fault + SearchResult list" where
  "convertToResultsOneAlloc ctx maxResults =
    (let limit = min (int (candidateCount ctx)) maxResults in
     if limit = 0 then Inr []
     else if limit < 0 then Inl MakeSliceLenOutOfRange
     else Inr (map (resultAt ctx) [0..<nat limit]))"

text \<open>
  The copy loop into the caller's buffer: an assignment \<^verbatim>\<open>resultBuffer[i].ID = ...\<close> at an
  index \<open>i\<close> that is not below \<^verbatim>\<open>len(resultBuffer)\<close> panics in Go, and is the fault
  \<open>IndexOutOfRange\<close> here. \<^verbatim>\<open>resultBuffer[:limit]\<close> panics for a negative \<open>limit\<close>. The
  result is the returned view and the buffer as the call leaves it.
\<close>

fun convertToResultsZeroAlloc_loop ::
  "Context \<Rightarrow> nat list \<Rightarrow> SearchResult list \<Rightarrow> fault + SearchResult list" where
  "convertToResultsZeroAlloc_loop ctx [] resultBuffer = Inr resultBuffer"
| "convertToResultsZeroAlloc_loop ctx (i # is) resultBuffer =
    (if i < length resultBuffer then
       convertToResultsZeroAlloc_loop ctx is (resultBuffer[i := resultAt ctx i])
     else Inl IndexOutOfRange)"

definition convertToResultsZeroAlloc ::
  "Context \<Rightarrow> int \<Rightarrow> SearchResult list \<Rightarrow> fault + (SearchResult list \<times> SearchResult list)" where
  "convertToResultsZeroAlloc ctx maxResults resultBuffer =
    (let limit = min (int (candidateCount ctx)) maxResults;
         limit = (if limit > int (length resultBuffer) then int (length resultBuffer) else limit)
     in
       if limit = 0 then Inr ([], resultBuffer)
       else
         case convertToResultsZeroAlloc_loop ctx [0..<nat limit] resultBuffer of
           Inl f \<Rightarrow> Inl f
         | Inr resultBuffer \<Rightarrow>
             if limit < 0 then Inl SliceBoundsOutOfRange
             else Inr (take (nat limit) resultBuffer, resultBuffer))"

section \<open>Search (runtime\_search.go) and the entry points (engine.go)\<close>

text \<open>
  The query is normalized and tokenized into a context from the pool, the candidates are
  found by one of the two paths, sorted and materialized. The functions return the state
  of the \<^verbatim>\<open>RuntimeSearch\<close> as the call leaves it, next to the result or the fault.
\<close>

definition prepareQuery :: "gostring \<Rightarrow> Context" where
  "prepareQuery query =
    (let ctx = emptyContext\<lparr>queryNormalized := normalizeText query queryNormalized_len\<rparr> in
     case splitWords (queryNormalized ctx) queryWords_len queryWords_len of
       (starts, ends) \<Rightarrow> ctx\<lparr>queryWordStarts := starts, queryWordEnds := ends\<rparr>)"

definition searchCandidates ::
  "RuntimeSearch \<Rightarrow> (gostring \<times> gostring) list \<Rightarrow> gostring \<Rightarrow> bool \<Rightarrow> RuntimeSearch \<times> Context" where
  "searchCandidates rs data query useCache =
    (let ctx = prepareQuery query in
     case (if useCache then searchWithCache rs data ctx else (rs, searchDirect data ctx)) of
       (rs, ctx) \<Rightarrow> (rs, sortCandidates ctx))"

definition performSearchOneAlloc ::
  "RuntimeSearch \<Rightarrow> (gostring \<times> gostring) list \<Rightarrow> gostring \<Rightarrow> int \<Rightarrow> bool
     \<Rightarrow> (fault + SearchResult list) \<times> RuntimeSearch" where
  "performSearchOneAlloc rs data query maxResults useCache =
    (case searchCandidates rs data query useCache of
       (rs, ctx) \<Rightarrow> (convertToResultsOneAlloc ctx maxResults, rs))"

definition performSearchZeroAlloc ::
  "RuntimeSearch \<Rightarrow> (gostring \<times> gostring) list \<Rightarrow> gostring \<Rightarrow> int \<Rightarrow> bool \<Rightarrow> SearchResult list
     \<Rightarrow> (fault + (SearchResult list \<times> SearchResult list)) \<times> RuntimeSearch" where
  "performSearchZeroAlloc rs data query maxResults useCache resultBuffer =
    (case searchCandidates rs data query useCache of
       (rs, ctx) \<Rightarrow> (convertToResultsZeroAlloc ctx maxResults resultBuffer, rs))"

definition cacheThreshold :: nat where "cacheThreshold = 1000"

definition Search ::
  "RuntimeSearch \<Rightarrow> (gostring \<times> gostring) list \<Rightarrow> gostring \<Rightarrow> int
     \<Rightarrow> (fault + SearchResult list) \<times> RuntimeSearch" where
  "Search rs data query maxResults =
    (if maxResults \<le> 0 \<or> length data = 0 \<or> length query = 0 then (Inr [], rs)
     else if length data \<le> cacheThreshold then performSearchOneAlloc rs data query maxResults False
     else performSearchOneAlloc rs data query maxResults True)"

definition SearchInto ::
  "RuntimeSearch \<Rightarrow> (gostring \<times> gostring) list \<Rightarrow> gostring \<Rightarrow> SearchResult list
     \<Rightarrow> (fault + (SearchResult list \<times> SearchResult list)) \<times> RuntimeSearch" where
  "SearchInto rs data query resultBuffer =
    (if length resultBuffer = 0 \<or> length data = 0 \<or> length query = 0 then
       (Inr ([], resultBuffer), rs)
     else
       let maxResults = int (length resultBuffer) in
       if length data \<le> cacheThreshold then
         performSearchZeroAlloc rs data query maxResults False resultBuffer
       else performSearchZeroAlloc rs data query maxResults True resultBuffer)"

text \<open>
  \<^verbatim>\<open>QuickSearch\<close> and \<^verbatim>\<open>QuickSearchInto\<close> take a \<^verbatim>\<open>RuntimeSearch\<close> from the pool, here the
  argument \<open>rs\<close>, and put it back.
\<close>

definition QuickSearch ::
  "RuntimeSearch \<Rightarrow> (gostring \<times> gostring) list \<Rightarrow> gostring \<Rightarrow> int \<Rightarrow> fault + SearchResult list" where
  "QuickSearch rs data query maxResults =
    (if maxResults \<le> 0 \<or> length data = 0 \<or> length query = 0 then Inr []
     else fst (performSearchOneAlloc rs data query maxResults False))"

definition QuickSearchInto ::
  "RuntimeSearch \<Rightarrow> (gostring \<times> gostring) list \<Rightarrow> gostring \<Rightarrow> SearchResult list
     \<Rightarrow> fault + (SearchResult list \<times> SearchResult list)" where
  "QuickSearchInto rs data query resultBuffer =
    (if length resultBuffer = 0 \<or> length data = 0 \<or> length query = 0 then Inr ([], resultBuffer)
     else
       let maxResults = int (length resultBuffer) in
       fst (performSearchZeroAlloc rs data query maxResults False resultBuffer))"

section \<open>Claims about the rune codec\<close>

text \<open>
  Claim C4, as stated: every non-empty input that is too short for its leading byte, or
  whose leading byte is no valid UTF-8 leading byte (a continuation byte 0x80..0xBF, a
  byte from 0xF8 on), decodes to U+FFFD with consumed length 1. The second half fails:
  \<^verbatim>\<open>decodeRune\<close> classifies the leading byte by the three comparisons alone, so the
  continuation byte 0x80 followed by one more byte is read as a two-byte sequence and
  0xF8 followed by three more bytes as a four-byte sequence.
\<close>

theorem decodeRune_invalid_lead_counterexample:
  "decodeRune [0x80, 0x41] = (1, 2) \<and> decodeRune [0x80, 0x41] \<noteq> (0xFFFD, 1)
   \<and> decodeRune [0xF8, 0x80, 0x80, 0x81] = (1, 4)"
  by (simp add: decodeRune_def)

text \<open>
  Claim C4, amended: for every non-empty input, if the input is shorter than the length
  its leading byte implies (\<open>impliedLen\<close>: 1 below 0x80, 2 below 0xE0, 3 below 0xF0, 4
  otherwise), \<^verbatim>\<open>decodeRune\<close> returns U+FFFD with consumed length 1; if it is long enough,
  exactly that many bytes are consumed, whatever the leading byte; the consumed length
  is never 0.
\<close>

theorem decodeRune_short_input:
  assumes "s \<noteq> []"
  shows "(length s < impliedLen (s ! 0) \<longrightarrow> decodeRune s = (0xFFFD, 1))
       \<and> (impliedLen (s ! 0) \<le> length s \<longrightarrow> snd (decodeRune s) = impliedLen (s ! 0))
       \<and> 1 \<le> snd (decodeRune s)"
proof (intro conjI impI)
  show "1 \<le> snd (decodeRune s)"
    using assms by (rule decodeRune_size_pos)
next
  assume "length s < impliedLen (s ! 0)"
  with assms show "decodeRune s = (0xFFFD, 1)"
    by (auto simp add: decodeRune_def impliedLen_def Let_def split: if_splits)
next
  assume "impliedLen (s ! 0) \<le> length s"
  with assms show "snd (decodeRune s) = impliedLen (s ! 0)"
    by (auto simp add: decodeRune_def impliedLen_def Let_def split: if_splits)
qed

theorem decodeRune_short_input_witness:
  "[0xC3 :: byte] \<noteq> [] \<and> length [0xC3 :: byte] < impliedLen ([0xC3] ! 0)
   \<and> decodeRune [0xC3] = (0xFFFD, 1)
   \<and> impliedLen ([0xC3, 0xB1] ! 0) \<le> length [0xC3, 0xB1 :: byte]
   \<and> snd (decodeRune [0xC3, 0xB1]) = 2"
  using decodeRune_short_input [of "[0xC3]"] decodeRune_short_input [of "[0xC3, 0xB1]"]
  by (simp add: impliedLen_def)

section \<open>Claims about the normalizer\<close>

lemma lowerASCII_idem: "lowerASCII (lowerASCII r) = lowerASCII r"
  unfolding lowerASCII_def by (auto; unat_arith)

lemma lowerASCII_ascii: "r < 128 \<Longrightarrow> lowerASCII r < 128"
  unfolding lowerASCII_def by (auto; unat_arith)

text \<open>On ASCII text the loop never takes the Unicode branch: it copies and folds bytes
  until the text ends or \<open>maxLen\<close> bytes are written.\<close>

lemma normalizeText_loop_ascii:
  "\<forall>b \<in> set t. b < 128 \<Longrightarrow>
   normalizeText_loop t maxLen i buf =
     buf @ map lowerASCII (take (nat (maxLen - int (length buf))) (drop i t))"
proof (induction t maxLen i buf rule: normalizeText_loop.induct)
  case (1 t maxLen i buf)
  show ?case
  proof (cases "i < length t \<and> int (length buf) < maxLen")
    case True
    then have r: "t ! i < 128" using "1.prems" by simp
    from True obtain k where k: "nat (maxLen - int (length buf)) = Suc k"
      by (metis Suc_pred' zero_less_nat_eq diff_gt_0_iff_gt)
    then have k': "nat (maxLen - int (length (buf @ [lowerASCII (t ! i)]))) = k"
      by simp
    have "normalizeText_loop t maxLen i buf
        = normalizeText_loop t maxLen (i + 1) (buf @ [lowerASCII (t ! i)])"
      using True r by (subst normalizeText_loop.simps) simp
    also have "\<dots> = (buf @ [lowerASCII (t ! i)]) @ map lowerASCII (take k (drop (i + 1) t))"
      using "1.IH"(1) [OF True refl r "1.prems"] k' by simp
    also have "\<dots> = buf @ map lowerASCII (take (Suc k) (drop i t))"
      using True by (simp add: Cons_nth_drop_Suc [symmetric])
    finally show ?thesis using k by simp
  next
    case False
    then show ?thesis
      by (subst normalizeText_loop.simps) auto
  qed
qed

lemma normalizeText_ascii:
  "\<forall>b \<in> set t. b < 128 \<Longrightarrow>
   normalizeText t cap = map lowerASCII (take (nat (int cap - 4)) t)"
  by (simp add: normalizeText_def normalizeText_loop_ascii)

text \<open>
  Claim C8: for every ASCII text, normalizing the output of \<^verbatim>\<open>normalizeText\<close> again gives
  the same bytes and the same length. The buffer of the second run has to be at least as
  large as the buffer of the first (\<open>cap1 \<le> cap2\<close>, in particular the same size); the
  buffer of the first run may have any size, large enough for the text or not.
\<close>

theorem normalizeText_idempotent:
  assumes "\<forall>b \<in> set t. b < 128" and "cap1 \<le> cap2"
  shows "normalizeText (normalizeText t cap1) cap2 = normalizeText t cap1"
proof -
  let ?n1 = "nat (int cap1 - 4)" and ?n2 = "nat (int cap2 - 4)"
  have a: "\<forall>b \<in> set (normalizeText t cap1). b < 128"
    using assms(1) by (auto simp add: normalizeText_ascii lowerASCII_ascii dest: in_set_takeD)
  have "normalizeText (normalizeText t cap1) cap2
      = map lowerASCII (take ?n2 (map lowerASCII (take ?n1 t)))"
    using a assms(1) by (simp add: normalizeText_ascii)
  also have "\<dots> = map lowerASCII (take ?n1 t)"
  proof -
    have "min ?n2 ?n1 = ?n1" using assms(2) by simp
    moreover have "lowerASCII \<circ> lowerASCII = lowerASCII"
      by (rule ext) (simp add: lowerASCII_idem)
    ultimately show ?thesis by (simp add: take_map)
  qed
  finally show ?thesis using assms(1) by (simp add: normalizeText_ascii)
qed

theorem normalizeText_idempotent_witness:
  "list_all (\<lambda>b. b < 128) (B ''Hello, World'') \<and> (2048 :: nat) \<le> 2048
   \<and> normalizeText (B ''Hello, World'') 2048 = B ''hello, world''
   \<and> normalizeText (normalizeText (B ''Hello, World'') 2048) 2048
       = normalizeText (B ''Hello, World'') 2048"
  using normalizeText_idempotent [of "B ''Hello, World''" 2048 2048]
  by (simp add: B_def normalizeText_def normalizeText_loop.simps lowerASCII_def)

section \<open>Claims about the entry points\<close>

text \<open>
  Claim C7: each of the four entry points returns the empty result, and no fault, when
  the corpus is empty (a nil map has length 0 as well), the query is empty, or
  \<^verbatim>\<open>maxResults\<close> is not positive (for the buffer variants: the result buffer has length 0).
  The state of the engine is left as it was.
\<close>

theorem entry_points_empty_input:
  "(maxResults \<le> 0 \<or> data = [] \<or> query = [] \<longrightarrow>
      Search rs data query maxResults = (Inr [], rs)
      \<and> QuickSearch rs data query maxResults = Inr [])
   \<and> (resultBuffer = [] \<or> data = [] \<or> query = [] \<longrightarrow>
      SearchInto rs data query resultBuffer = (Inr ([], resultBuffer), rs)
      \<and> QuickSearchInto rs data query resultBuffer = Inr ([], resultBuffer))"
  by (auto simp add: Search_def QuickSearch_def SearchInto_def QuickSearchInto_def)

theorem entry_points_empty_input_witness:
  "Search NewRuntimeSearch [] (B ''test'') 5 = (Inr [], NewRuntimeSearch)
   \<and> QuickSearch NewRuntimeSearch [] (B ''test'') 5 = Inr []
   \<and> SearchInto NewRuntimeSearch [] (B ''test'') [\<lparr>ID = [], Text = [], Score = 0\<rparr>]
       = (Inr ([], [\<lparr>ID = [], Text = [], Score = 0\<rparr>]), NewRuntimeSearch)
   \<and> QuickSearchInto NewRuntimeSearch [] (B ''test'') [\<lparr>ID = [], Text = [], Score = 0\<rparr>]
       = Inr ([], [\<lparr>ID = [], Text = [], Score = 0\<rparr>])
   \<and> Search NewRuntimeSearch [(B ''user1'', B ''test data'')] [] 5 = (Inr [], NewRuntimeSearch)
   \<and> QuickSearch NewRuntimeSearch [(B ''user1'', B ''test data'')] (B ''test'') (- 1) = Inr []
   \<and> QuickSearchInto NewRuntimeSearch [(B ''user1'', B ''test data'')] (B ''test'') []
       = Inr ([], [])"
  using entry_points_empty_input [of 5 "[]" "B ''test''" NewRuntimeSearch
      "[\<lparr>ID = [], Text = [], Score = 0\<rparr>]"]
    entry_points_empty_input [of 5 "[(B ''user1'', B ''test data'')]" "[]" NewRuntimeSearch "[]"]
    entry_points_empty_input [of "- 1" "[(B ''user1'', B ''test data'')]" "B ''test''"
      NewRuntimeSearch "[]"]
  by simp

section \<open>Claims about the candidate set\<close>


lemma addToCandidateSet_search_spec:
  assumes "sorted_wrt (<) cset" and "left \<le> right" and "right \<le> length cset"
    and "\<forall>i < left. cset ! i < docID"
    and "\<forall>i. right \<le> i \<and> i < length cset \<longrightarrow> docID \<le> cset ! i"
  shows "left \<le> addToCandidateSet_search cset docID left right
       \<and> addToCandidateSet_search cset docID left right \<le> right
       \<and> (\<forall>i < addToCandidateSet_search cset docID left right. cset ! i < docID)
       \<and> (\<forall>i. addToCandidateSet_search cset docID left right \<le> i \<and> i < length cset
              \<longrightarrow> docID \<le> cset ! i)"
  using assms
proof (induction cset docID left right rule: addToCandidateSet_search.induct)
  case (1 cset docID left right)
  show ?case
  proof (cases "left < right")
    case False
    with "1.prems" show ?thesis
      by (subst (1 2 3 4) addToCandidateSet_search.simps) simp
  next
    case True
    let ?mid = "(left + right) div 2"
    have mid: "left \<le> ?mid" "?mid < right" using True by auto
    show ?thesis
    proof (cases "cset ! ?mid < docID")
      case lt: True
      have "\<forall>i < ?mid + 1. cset ! i < docID"
      proof (intro allI impI)
        fix i assume i: "i < ?mid + 1"
        show "cset ! i < docID"
        proof (cases "i = ?mid")
          case True with lt show ?thesis by simp
        next
          case False
          with i have "i < ?mid" by simp
          moreover have "?mid < length cset" using mid "1.prems"(3) by simp
          ultimately have "cset ! i < cset ! ?mid"
            using "1.prems"(1) by (simp add: sorted_wrt_iff_nth_less)
          with lt show ?thesis by simp
        qed
      qed
      with "1.IH"(1) [OF True refl lt "1.prems"(1)] mid "1.prems"
      have "?mid + 1 \<le> addToCandidateSet_search cset docID (?mid + 1) right
       \<and> addToCandidateSet_search cset docID (?mid + 1) right \<le> right
       \<and> (\<forall>i < addToCandidateSet_search cset docID (?mid + 1) right. cset ! i < docID)
       \<and> (\<forall>i. addToCandidateSet_search cset docID (?mid + 1) right \<le> i \<and> i < length cset
              \<longrightarrow> docID \<le> cset ! i)"
        by simp
      moreover have "addToCandidateSet_search cset docID left right
          = addToCandidateSet_search cset docID (?mid + 1) right"
        using True lt by (subst addToCandidateSet_search.simps) (simp add: Let_def)
      ultimately show ?thesis using mid by simp
    next
      case ge: False
      have "\<forall>i. ?mid \<le> i \<and> i < length cset \<longrightarrow> docID \<le> cset ! i"
      proof (intro allI impI)
        fix i assume i: "?mid \<le> i \<and> i < length cset"
        show "docID \<le> cset ! i"
        proof (cases "i = ?mid")
          case True with ge show ?thesis by simp
        next
          case False
          with i have "?mid < i" by simp
          with i have "cset ! ?mid < cset ! i"
            using "1.prems"(1) by (simp add: sorted_wrt_iff_nth_less)
          with ge show ?thesis by simp
        qed
      qed
      with "1.IH"(2) [OF True refl ge "1.prems"(1)] mid "1.prems"
      have "left \<le> addToCandidateSet_search cset docID left ?mid
       \<and> addToCandidateSet_search cset docID left ?mid \<le> ?mid
       \<and> (\<forall>i < addToCandidateSet_search cset docID left ?mid. cset ! i < docID)
       \<and> (\<forall>i. addToCandidateSet_search cset docID left ?mid \<le> i \<and> i < length cset
              \<longrightarrow> docID \<le> cset ! i)"
        by simp
      moreover have "addToCandidateSet_search cset docID left right
          = addToCandidateSet_search cset docID left ?mid"
        using True ge by (subst addToCandidateSet_search.simps) (simp add: Let_def)
      ultimately show ?thesis using mid by simp
    qed
  qed
qed

lemma sorted_insert_at:
  fixes cset :: "'a :: linorder list"
  assumes s: "sorted_wrt (<) cset" and l: "left \<le> length cset"
    and lo: "\<forall>i < left. cset ! i < x"
    and hi: "\<forall>i. left \<le> i \<and> i < length cset \<longrightarrow> x \<le> cset ! i"
    and ne: "\<not> (left < length cset \<and> cset ! left = x)"
  shows "sorted_wrt (<) (take left cset @ x # drop left cset)"
proof -
  have a: "\<forall>y \<in> set (take left cset). y < x"
    using lo l by (auto simp add: in_set_conv_nth)
  have b: "\<forall>y \<in> set (drop left cset). x < y"
  proof
    fix y assume "y \<in> set (drop left cset)"
    then obtain k where k: "k < length cset - left" "y = cset ! (left + k)"
      by (auto simp add: in_set_conv_nth)
    then have xy: "x \<le> y" using hi by simp
    show "x < y"
    proof (cases "k = 0")
      case True
      with k ne have "y \<noteq> x" by auto
      with xy show ?thesis by simp
    next
      case False
      with k have "cset ! left < cset ! (left + k)"
        using s by (simp add: sorted_wrt_iff_nth_less)
      moreover have "x \<le> cset ! left" using hi k by simp
      ultimately show ?thesis using k by simp
    qed
  qed
  have c: "sorted_wrt (<) (take left cset)" "sorted_wrt (<) (drop left cset)"
    using s by (simp_all add: sorted_wrt_take sorted_wrt_drop)
  from a b c show ?thesis
    by (fastforce simp add: sorted_wrt_append)
qed


lemma addToCandidateSet_search_pos:
  assumes "sorted_wrt (<) cset"
  shows "addToCandidateSet_search cset docID 0 (length cset) \<le> length cset
       \<and> (\<forall>i < addToCandidateSet_search cset docID 0 (length cset). cset ! i < docID)
       \<and> (\<forall>i. addToCandidateSet_search cset docID 0 (length cset) \<le> i \<and> i < length cset
              \<longrightarrow> docID \<le> cset ! i)"
proof -
  have "\<forall>i < (0 :: nat). cset ! i < docID" by simp
  moreover have "\<forall>i. length cset \<le> i \<and> i < length cset \<longrightarrow> docID \<le> cset ! i" by auto
  ultimately show ?thesis
    using addToCandidateSet_search_spec [OF assms, of 0 "length cset" docID] by blast
qed

lemma addToCandidateSet_full:
  "candidateSetLen ctx \<ge> candidateSet_len \<Longrightarrow> addToCandidateSet docIDs ctx = ctx"
  by (cases docIDs) simp_all

lemma set_insert_at: "set (take n xs @ x # drop n xs) = insert x (set xs)"
  by (metis append_take_drop_id list.simps(15) set_append Un_insert_right)

text \<open>The three ways one iteration of \<^verbatim>\<open>addToCandidateSet\<close> can go.\<close>

lemma addToCandidateSet_Cons_cases:
  obtains
    (full) "candidateSetLen ctx \<ge> candidateSet_len"
      "addToCandidateSet (docID # docIDs) ctx = ctx"
  | (dup) "candidateSetLen ctx < candidateSet_len" "docID \<in> set (candidateSet ctx)"
      "addToCandidateSet (docID # docIDs) ctx = addToCandidateSet docIDs ctx"
  | (ins) left where "candidateSetLen ctx < candidateSet_len"
      "left = addToCandidateSet_search (candidateSet ctx) docID 0 (candidateSetLen ctx)"
      "\<not> (left < candidateSetLen ctx \<and> candidateSet ctx ! left = docID)"
      "addToCandidateSet (docID # docIDs) ctx =
         addToCandidateSet docIDs
           (ctx\<lparr>candidateSet := take left (candidateSet ctx) @ docID # drop left (candidateSet ctx)\<rparr>)"
proof -
  let ?left = "addToCandidateSet_search (candidateSet ctx) docID 0 (candidateSetLen ctx)"
  consider "candidateSetLen ctx \<ge> candidateSet_len"
    | "candidateSetLen ctx < candidateSet_len" "?left < candidateSetLen ctx \<and> candidateSet ctx ! ?left = docID"
    | "candidateSetLen ctx < candidateSet_len" "\<not> (?left < candidateSetLen ctx \<and> candidateSet ctx ! ?left = docID)"
    by linarith
  then show thesis
  proof cases
    case 1
    then show thesis by (intro full) simp_all
  next
    case 2
    then have "docID \<in> set (candidateSet ctx)" by (metis nth_mem)
    with 2 show thesis by (intro dup) (simp_all add: Let_def)
  next
    case 3
    then show thesis by (intro ins [of ?left]) (auto simp add: Let_def)
  qed
qed

lemma addToCandidateSet_sorted:
  "sorted_wrt (<) (candidateSet ctx) \<Longrightarrow>
   sorted_wrt (<) (candidateSet (addToCandidateSet docIDs ctx))"
proof (induction docIDs arbitrary: ctx)
  case Nil
  then show ?case by simp
next
  case (Cons docID docIDs)
  show ?case
  proof (cases rule: addToCandidateSet_Cons_cases [of ctx docID docIDs])
    case full
    with Cons.prems show ?thesis by simp
  next
    case dup
    with Cons show ?thesis by simp
  next
    case (ins left)
    note sp = addToCandidateSet_search_pos [OF Cons.prems, of docID]
    have "sorted_wrt (<) (take left (candidateSet ctx) @ docID # drop left (candidateSet ctx))"
      using sorted_insert_at [OF Cons.prems, of left docID] sp ins(2,3) by blast
    with ins(4) Cons.IH show ?thesis by simp
  qed
qed

lemma addToCandidateSet_length:
  "candidateSetLen ctx \<le> candidateSet_len \<Longrightarrow>
   candidateSetLen (addToCandidateSet docIDs ctx) \<le> candidateSet_len"
proof (induction docIDs arbitrary: ctx)
  case Nil
  then show ?case by simp
next
  case (Cons docID docIDs)
  show ?case
  proof (cases rule: addToCandidateSet_Cons_cases [of ctx docID docIDs])
    case full
    with Cons.prems show ?thesis by simp
  next
    case dup
    with Cons show ?thesis by simp
  next
    case (ins left)
    with Cons.IH [of "ctx\<lparr>candidateSet := take left (candidateSet ctx) @ docID # drop left (candidateSet ctx)\<rparr>"]
    show ?thesis by simp
  qed
qed

lemma addToCandidateSet_mono:
  "set (candidateSet ctx) \<subseteq> set (candidateSet (addToCandidateSet docIDs ctx))"
proof (induction docIDs arbitrary: ctx)
  case Nil
  then show ?case by simp
next
  case (Cons docID docIDs)
  show ?case
  proof (cases rule: addToCandidateSet_Cons_cases [of ctx docID docIDs])
    case full
    then show ?thesis by simp
  next
    case dup
    with Cons show ?thesis by simp
  next
    case (ins left)
    with Cons.IH [of "ctx\<lparr>candidateSet := take left (candidateSet ctx) @ docID # drop left (candidateSet ctx)\<rparr>"]
    show ?thesis by (auto simp add: set_insert_at simp del: set_append)
  qed
qed

lemma addToCandidateSet_subset:
  "set (candidateSet (addToCandidateSet docIDs ctx)) \<subseteq> set (candidateSet ctx) \<union> set docIDs"
proof (induction docIDs arbitrary: ctx)
  case Nil
  then show ?case by simp
next
  case (Cons docID docIDs)
  show ?case
  proof (cases rule: addToCandidateSet_Cons_cases [of ctx docID docIDs])
    case full
    then show ?thesis by auto
  next
    case dup
    with Cons show ?thesis by auto
  next
    case (ins left)
    with Cons.IH [of "ctx\<lparr>candidateSet := take left (candidateSet ctx) @ docID # drop left (candidateSet ctx)\<rparr>"]
    show ?thesis by (auto simp add: set_insert_at simp del: set_append)
  qed
qed

lemma addToCandidateSet_complete:
  "candidateSetLen ctx + length docIDs \<le> candidateSet_len \<Longrightarrow>
   set docIDs \<subseteq> set (candidateSet (addToCandidateSet docIDs ctx))"
proof (induction docIDs arbitrary: ctx)
  case Nil
  then show ?case by simp
next
  case (Cons docID docIDs)
  show ?case
  proof (cases rule: addToCandidateSet_Cons_cases [of ctx docID docIDs])
    case full
    with Cons.prems show ?thesis by simp
  next
    case dup
    moreover have "docID \<in> set (candidateSet (addToCandidateSet docIDs ctx))"
      using dup(2) addToCandidateSet_mono by blast
    moreover have "set docIDs \<subseteq> set (candidateSet (addToCandidateSet docIDs ctx))"
      using Cons.IH [of ctx] Cons.prems by simp
    ultimately show ?thesis by simp
  next
    case (ins left)
    let ?ctx = "ctx\<lparr>candidateSet := take left (candidateSet ctx) @ docID # drop left (candidateSet ctx)\<rparr>"
    have "docID \<in> set (candidateSet ?ctx)" by simp
    then have "docID \<in> set (candidateSet (addToCandidateSet docIDs ?ctx))"
      using addToCandidateSet_mono by blast
    moreover have "set docIDs \<subseteq> set (candidateSet (addToCandidateSet docIDs ?ctx))"
      using Cons.IH [of ?ctx] Cons.prems by simp
    ultimately show ?thesis using ins(4) by simp
  qed
qed


definition candidateSet_ok :: "Context \<Rightarrow> bool" where
  "candidateSet_ok ctx \<longleftrightarrow>
     sorted_wrt (<) (candidateSet ctx) \<and> candidateSetLen ctx \<le> candidateSet_len"

lemma addToCandidateSet_ok: "candidateSet_ok ctx \<Longrightarrow> candidateSet_ok (addToCandidateSet docIDs ctx)"
  by (simp add: candidateSet_ok_def addToCandidateSet_sorted addToCandidateSet_length)

lemma findCandidates_prefix_ok:
  "candidateSet_ok ctx \<Longrightarrow> candidateSet_ok (findCandidates_prefix rs start endi ctx)"
proof -
  have "candidateSet_ok ctx \<Longrightarrow> candidateSet_ok (fold (\<lambda>(word, docIDs) ctx.
         let wordLen = length word in
         if wordLen > n \<and> wordLen - n \<le> 10 then
           (if memEqual word (subslice (queryNormalized ctx) start endi) n
            then addToCandidateSet docIDs ctx else ctx)
         else if n > wordLen \<and> n - wordLen \<le> 10 then
           (if memEqual (subslice (queryNormalized ctx) start (start + wordLen)) word wordLen
            then addToCandidateSet docIDs ctx else ctx)
         else ctx) wm ctx)" for wm n
    by (induction wm arbitrary: ctx) (auto simp add: Let_def addToCandidateSet_ok)
  then show "candidateSet_ok ctx \<Longrightarrow> ?thesis"
    by (simp add: findCandidates_prefix_def Let_def)
qed

lemma findCandidates_words_ok:
  "candidateSet_ok ctx \<Longrightarrow> candidateSet_ok (findCandidates_words rs rarest ctx)"
proof -
  have "candidateSet_ok ctx \<Longrightarrow> candidateSet_ok (fold (\<lambda>i ctx.
        let start = queryWordStarts ctx ! i;
            endi = queryWordEnds ctx ! i;
            queryWord = subslice (queryNormalized ctx) start endi
        in
          if queryWord = rarest then ctx
          else
            let ctx = (case map_of (cachedWordMap rs) queryWord of
                         Some docIDs \<Rightarrow> addToCandidateSet docIDs ctx
                       | None \<Rightarrow> ctx)
            in findCandidates_prefix rs start endi ctx) is ctx)" for "is"
    by (induction "is" arbitrary: ctx)
      (auto simp add: Let_def addToCandidateSet_ok findCandidates_prefix_ok split: option.splits)
  then show "candidateSet_ok ctx \<Longrightarrow> ?thesis"
    by (simp add: findCandidates_words_def)
qed

lemma findCandidates_trigrams_ok:
  "candidateSet_ok ctx \<Longrightarrow> candidateSet_ok (findCandidates_trigrams rs i ctx)"
proof (induction rs i ctx rule: findCandidates_trigrams.induct)
  case (1 rs i ctx)
  then show ?case
    by (subst findCandidates_trigrams.simps)
      (auto simp add: addToCandidateSet_ok split: option.splits)
qed

lemma findCandidates_ok: "candidateSet_ok (findCandidates rs ctx)"
proof -
  have "candidateSet_ok (ctx\<lparr>candidateSet := []\<rparr>)"
    by (simp add: candidateSet_ok_def)
  then show ?thesis
    unfolding findCandidates_def Let_def
    by (auto intro!: findCandidates_trigrams_ok findCandidates_words_ok addToCandidateSet_ok
        split: option.splits)
qed

text \<open>
  Claim C9: the candidate set is a strictly increasing (hence duplicate-free) list of
  identifiers that never exceeds its capacity. \<^verbatim>\<open>addToCandidateSet\<close> keeps it so for every
  list of identifiers it is given; nothing already in the set is lost and nothing but the
  given identifiers is added; all of them are added when there is room for all; on a
  full set the call changes nothing (the function is total: there is no error to
  signal). \<^verbatim>\<open>findCandidates\<close>, which starts from the empty set and changes the set through
  \<^verbatim>\<open>addToCandidateSet\<close> only, therefore always leaves a set of this kind.
\<close>

theorem addToCandidateSet_invariant:
  assumes "sorted_wrt (<) (candidateSet ctx)" and "candidateSetLen ctx \<le> candidateSet_len"
  shows "sorted_wrt (<) (candidateSet (addToCandidateSet docIDs ctx))
       \<and> distinct (candidateSet (addToCandidateSet docIDs ctx))
       \<and> candidateSetLen (addToCandidateSet docIDs ctx) \<le> candidateSet_len
       \<and> set (candidateSet ctx) \<subseteq> set (candidateSet (addToCandidateSet docIDs ctx))
       \<and> set (candidateSet (addToCandidateSet docIDs ctx)) \<subseteq> set (candidateSet ctx) \<union> set docIDs
       \<and> (candidateSetLen ctx + length docIDs \<le> candidateSet_len \<longrightarrow>
            set (candidateSet (addToCandidateSet docIDs ctx)) = set (candidateSet ctx) \<union> set docIDs)
       \<and> (candidateSetLen ctx = candidateSet_len \<longrightarrow> addToCandidateSet docIDs ctx = ctx)
       \<and> sorted_wrt (<) (candidateSet (findCandidates rs ctx))
       \<and> candidateSetLen (findCandidates rs ctx) \<le> candidateSet_len"
proof -
  have s: "sorted_wrt (<) (candidateSet (addToCandidateSet docIDs ctx))"
    using assms(1) by (rule addToCandidateSet_sorted)
  then have d: "distinct (candidateSet (addToCandidateSet docIDs ctx))"
    by (simp add: strict_sorted_iff)
  have c: "candidateSetLen ctx + length docIDs \<le> candidateSet_len \<longrightarrow>
      set (candidateSet (addToCandidateSet docIDs ctx)) = set (candidateSet ctx) \<union> set docIDs"
    using addToCandidateSet_complete [of ctx docIDs] addToCandidateSet_subset [of docIDs ctx]
      addToCandidateSet_mono [of ctx docIDs] by blast
  have f: "candidateSetLen ctx = candidateSet_len \<longrightarrow> addToCandidateSet docIDs ctx = ctx"
    by (simp add: addToCandidateSet_full)
  from s d c f addToCandidateSet_length [OF assms(2)] addToCandidateSet_mono
    addToCandidateSet_subset findCandidates_ok [of rs ctx]
  show ?thesis by (simp add: candidateSet_ok_def)
qed

lemma replicate_less_add: "replicate i a < replicate (i + Suc k) (a :: byte)"
proof -
  have "replicate (i + Suc k) a = replicate i a @ (a # replicate k a)"
    unfolding replicate_add by (simp only: replicate_Suc)
  moreover have "replicate i a < replicate i a @ (a # replicate k a)"
    unfolding list_less_def by (rule lexord_append_rightI) blast
  ultimately show ?thesis by (simp only:)
qed

lemma replicate_less: "i < j \<Longrightarrow> replicate i (a :: byte) < replicate j a"
  using replicate_less_add [of i a "j - i - 1"] by simp

lemma sorted_replicates: "sorted_wrt (<) (map (\<lambda>i. replicate i (a :: byte)) [0..<n])"
  by (simp add: sorted_wrt_map sorted_wrt_iff_nth_less replicate_less)

theorem addToCandidateSet_invariant_witness:
  "candidateSet (addToCandidateSet [B ''doc2'', B ''doc1'', B ''doc2'']
       (emptyContext\<lparr>candidateSet := [B ''doc1'', B ''doc3'']\<rparr>))
     = [B ''doc1'', B ''doc2'', B ''doc3'']
   \<and> sorted_wrt (<) (candidateSet (addToCandidateSet [B ''doc2'', B ''doc1'', B ''doc2'']
       (emptyContext\<lparr>candidateSet := [B ''doc1'', B ''doc3'']\<rparr>)))
   \<and> candidateSetLen (emptyContext\<lparr>candidateSet := map (\<lambda>i. replicate i 97) [0..<1024]\<rparr>)
       = candidateSet_len
   \<and> addToCandidateSet [B ''doc2'']
        (emptyContext\<lparr>candidateSet := map (\<lambda>i. replicate i 97) [0..<1024]\<rparr>)
      = emptyContext\<lparr>candidateSet := map (\<lambda>i. replicate i 97) [0..<1024]\<rparr>"
proof -
  let ?c1 = "emptyContext\<lparr>candidateSet := [B ''doc1'', B ''doc3'']\<rparr>"
  let ?c2 = "emptyContext\<lparr>candidateSet := map (\<lambda>i. replicate i 97) [0..<1024]\<rparr>"
  have h1: "sorted_wrt (<) (candidateSet ?c1)" "candidateSetLen ?c1 \<le> candidateSet_len"
    by (simp_all add: B_def candidateSet_len_def)
  have h2: "sorted_wrt (<) (candidateSet ?c2)" "candidateSetLen ?c2 \<le> candidateSet_len"
    "candidateSetLen ?c2 = candidateSet_len"
    by (simp_all add: sorted_replicates candidateSet_len_def del: upt_rec_numeral)
  have v: "candidateSet (addToCandidateSet [B ''doc2'', B ''doc1'', B ''doc2''] ?c1)
     = [B ''doc1'', B ''doc2'', B ''doc3'']"
    by (simp add: B_def emptyContext_def candidateSet_len_def addToCandidateSet_search.simps Let_def)
  have a: "sorted_wrt (<) (candidateSet (addToCandidateSet [B ''doc2'', B ''doc1'', B ''doc2''] ?c1))"
    using addToCandidateSet_invariant [OF h1, of "[B ''doc2'', B ''doc1'', B ''doc2'']" NewRuntimeSearch]
    by (rule conjunct1)
  have "candidateSetLen ?c2 = candidateSet_len \<longrightarrow> addToCandidateSet [B ''doc2''] ?c2 = ?c2"
    using addToCandidateSet_invariant [OF h2(1,2), of "[B ''doc2'']" NewRuntimeSearch]
    by (elim conjE)
  then have b: "addToCandidateSet [B ''doc2''] ?c2 = ?c2"
    using h2(3) by (rule mp)
  show ?thesis
    using v a h2(3) b by (intro conjI)
qed

section \<open>Claims about the ranker\<close>

text \<open>
  The three candidate arrays are read together: \<open>cands\<close> zips them into one list of
  (score, identifier, text) triples, and \<open>cand_wf\<close> says that the three lists have the
  same length \<^verbatim>\<open>candidateCount\<close>, as they do in the source, where they share one counter.
  \<open>before a b\<close> is the order of the spec, strictly: a higher score, or the same score and
  a smaller identifier; \<open>ranked_le\<close> is the same order with equality of score and
  identifier allowed; \<open>rank\<close> is the pair (negated score, identifier), whose
  lexicographic order is \<open>ranked_le\<close>.
\<close>


type_synonym cand = "real \<times> gostring \<times> gostring"

definition cands :: "Context \<Rightarrow> cand list" where
  "cands ctx = zip (candidateScores ctx) (zip (candidateIDs ctx) (candidateTexts ctx))"

definition cand_wf :: "Context \<Rightarrow> bool" where
  "cand_wf ctx \<longleftrightarrow>
     length (candidateScores ctx) = candidateCount ctx \<and> length (candidateTexts ctx) = candidateCount ctx"

definition before :: "cand \<Rightarrow> cand \<Rightarrow> bool" where
  "before a b \<longleftrightarrow> fst a > fst b \<or> (fst a = fst b \<and> fst (snd a) < fst (snd b))"

definition ranked_le :: "cand \<Rightarrow> cand \<Rightarrow> bool" where
  "ranked_le a b \<longleftrightarrow> fst a > fst b \<or> (fst a = fst b \<and> fst (snd a) \<le> fst (snd b))"

definition rank :: "cand \<Rightarrow> real \<times> gostring" where
  "rank a = (- fst a, fst (snd a))"

lemma ranked_le_rank: "ranked_le a b \<longleftrightarrow> rank a \<le> rank b"
  by (auto simp add: ranked_le_def rank_def less_eq_prod_def)

lemma not_before: "\<not> before a b \<longleftrightarrow> ranked_le b a"
  by (auto simp add: before_def ranked_le_def)

lemma before_imp_ranked_le: "before a b \<Longrightarrow> ranked_le a b"
  by (auto simp add: before_def ranked_le_def)

lemma ranked_le_trans: "ranked_le a b \<Longrightarrow> ranked_le b c \<Longrightarrow> ranked_le a c"
  unfolding ranked_le_rank by (rule order_trans)

lemma length_cands [simp]: "cand_wf ctx \<Longrightarrow> length (cands ctx) = candidateCount ctx"
  by (simp add: cands_def cand_wf_def)

lemma cands_nth:
  "cand_wf ctx \<Longrightarrow> i < candidateCount ctx \<Longrightarrow>
   cands ctx ! i = (candidateScores ctx ! i, candidateIDs ctx ! i, candidateTexts ctx ! i)"
  by (simp add: cands_def cand_wf_def)

lemma cands_upd:
  "cands (ctx\<lparr>candidateScores := (candidateScores ctx)[k := a],
              candidateIDs := (candidateIDs ctx)[k := b],
              candidateTexts := (candidateTexts ctx)[k := c]\<rparr>) = (cands ctx)[k := (a, b, c)]"
  by (simp add: cands_def zip_update)

lemma cand_wf_upd:
  "cand_wf ctx \<Longrightarrow>
   cand_wf (ctx\<lparr>candidateScores := (candidateScores ctx)[k := a],
              candidateIDs := (candidateIDs ctx)[k := b],
              candidateTexts := (candidateTexts ctx)[k := c]\<rparr>)"
  by (simp add: cand_wf_def)

text \<open>The loop test of both shifting loops, on the zipped candidates.\<close>

lemma shift_test:
  "cand_wf ctx \<Longrightarrow> j < candidateCount ctx \<Longrightarrow>
   (candidateScores ctx ! j < s \<or> (candidateScores ctx ! j = s \<and> candidateIDs ctx ! j > d))
     \<longleftrightarrow> before (s, d, t) (cands ctx ! j)"
  by (auto simp add: cands_nth before_def)

text \<open>A shifting step followed by the final store is a transposition.\<close>

lemma hole_step:
  assumes "j < length xs" "i < length xs"
  shows "mset (xs[j := xs ! i, i := v]) = mset (xs[j := v])"
proof (cases "i = j")
  case True
  then show ?thesis by simp
next
  case False
  let ?ys = "xs[j := v]"
  have "mset (?ys[j := ?ys ! i, i := ?ys ! j]) = mset ?ys"
    using assms by (intro mset_swap) simp_all
  moreover have "?ys[j := ?ys ! i, i := ?ys ! j] = xs[j := xs ! i, i := v]"
    using assms False by (simp add: list_update_swap)
  ultimately show ?thesis by simp
qed

lemma insertionSort_shift_spec:
  "cand_wf ctx \<Longrightarrow> k < candidateCount ctx \<Longrightarrow>
   insertionSort_shift ctx left k s d = (ctx', k') \<Longrightarrow>
   cand_wf ctx' \<and> candidateCount ctx' = candidateCount ctx \<and> k' \<le> k \<and> (left \<le> k \<longrightarrow> left \<le> k')
   \<and> mset ((cands ctx')[k' := v]) = mset ((cands ctx)[k := v])
   \<and> (\<forall>idx. idx < k' \<or> idx > k \<longrightarrow> cands ctx' ! idx = cands ctx ! idx)
   \<and> (\<forall>idx. k' < idx \<and> idx \<le> k \<longrightarrow> cands ctx' ! idx = cands ctx ! (idx - 1))
   \<and> (\<forall>idx. k' \<le> idx \<and> idx < k \<longrightarrow> before (s, d, t) (cands ctx ! idx))
   \<and> (left < k' \<longrightarrow> \<not> before (s, d, t) (cands ctx ! (k' - 1)))"
proof (induction ctx left k s d arbitrary: ctx' k' rule: insertionSort_shift.induct)
  case (1 ctx left k s d)
  let ?c = "k > left \<and> (candidateScores ctx ! (k - 1) < s
          \<or> (candidateScores ctx ! (k - 1) = s \<and> candidateIDs ctx ! (k - 1) > d))"
  have "k - 1 < candidateCount ctx" using "1.prems"(2) by simp
  note st = shift_test [OF "1.prems"(1) this, of s d t]
  show ?case
  proof (cases ?c)
    case False
    then have e: "ctx' = ctx" "k' = k"
      using "1.prems"(3) by (subst (asm) insertionSort_shift.simps, auto)+
    have "left < k \<longrightarrow> \<not> before (s, d, t) (cands ctx ! (k - 1))"
      using False st by auto
    with "1.prems" e show ?thesis by auto
  next
    case True
    let ?ctx1 = "ctx\<lparr>candidateScores := (candidateScores ctx)[k := candidateScores ctx ! (k - 1)],
              candidateIDs := (candidateIDs ctx)[k := candidateIDs ctx ! (k - 1)],
              candidateTexts := (candidateTexts ctx)[k := candidateTexts ctx ! (k - 1)]\<rparr>"
    have r: "insertionSort_shift ?ctx1 left (k - 1) s d = (ctx', k')"
      using "1.prems"(3) True by (subst (asm) insertionSort_shift.simps) simp
    have wf1: "cand_wf ?ctx1" using "1.prems"(1) by (rule cand_wf_upd)
    have k1: "k - 1 < candidateCount ?ctx1" using "1.prems"(2) by simp
    note ih = "1.IH" [OF True wf1 k1 r]
    note c2 = conjunct2
    note wf' = ih [THEN conjunct1] and cnt' = ih [THEN c2, THEN conjunct1]
      and k'k = ih [THEN c2, THEN c2, THEN conjunct1]
      and lk' = ih [THEN c2, THEN c2, THEN c2, THEN conjunct1]
      and hole = ih [THEN c2, THEN c2, THEN c2, THEN c2, THEN conjunct1]
      and i4 = ih [THEN c2, THEN c2, THEN c2, THEN c2, THEN c2, THEN conjunct1]
      and i5 = ih [THEN c2, THEN c2, THEN c2, THEN c2, THEN c2, THEN c2, THEN conjunct1]
      and i6 = ih [THEN c2, THEN c2, THEN c2, THEN c2, THEN c2, THEN c2, THEN c2, THEN conjunct1]
      and i7 = ih [THEN c2, THEN c2, THEN c2, THEN c2, THEN c2, THEN c2, THEN c2, THEN c2]
    have c1: "cands ?ctx1 = (cands ctx)[k := cands ctx ! (k - 1)]"
      using "1.prems"(1,2) by (simp add: cands_upd cands_nth)
    have n: "k < length (cands ctx)" "0 < k" using "1.prems"(1,2) True by simp_all
    have b: "before (s, d, t) (cands ctx ! (k - 1))"
      using True st by auto
    have h: "mset ((cands ?ctx1)[k - 1 := v]) = mset ((cands ctx)[k := v])"
      unfolding c1 using n by (intro hole_step) simp_all
    have 4: "\<forall>idx. idx < k' \<or> idx > k \<longrightarrow> cands ctx' ! idx = cands ctx ! idx"
    proof (intro allI impI)
      fix idx assume a: "idx < k' \<or> idx > k"
      then have "cands ctx' ! idx = cands ?ctx1 ! idx" using i4 k'k by auto
      also have "\<dots> = cands ctx ! idx" unfolding c1 using a k'k n by auto
      finally show "cands ctx' ! idx = cands ctx ! idx" .
    qed
    have 5: "\<forall>idx. k' < idx \<and> idx \<le> k \<longrightarrow> cands ctx' ! idx = cands ctx ! (idx - 1)"
    proof (intro allI impI)
      fix idx assume a: "k' < idx \<and> idx \<le> k"
      show "cands ctx' ! idx = cands ctx ! (idx - 1)"
      proof (cases "idx = k")
        case True
        then have "cands ctx' ! idx = cands ?ctx1 ! idx" using i4 n by auto
        then show ?thesis unfolding c1 using True n by simp
      next
        case False
        with a have "cands ctx' ! idx = cands ?ctx1 ! (idx - 1)" using i5 by auto
        then show ?thesis unfolding c1 using False a n by (auto simp add: nth_list_update)
      qed
    qed
    have 6: "\<forall>idx. k' \<le> idx \<and> idx < k \<longrightarrow> before (s, d, t) (cands ctx ! idx)"
    proof (intro allI impI)
      fix idx assume a: "k' \<le> idx \<and> idx < k"
      show "before (s, d, t) (cands ctx ! idx)"
      proof (cases "idx = k - 1")
        case True
        with b show ?thesis by simp
      next
        case False
        with a have "before (s, d, t) (cands ?ctx1 ! idx)" using i6 by auto
        then show ?thesis unfolding c1 using False a n by (auto simp add: nth_list_update)
      qed
    qed
    have 7: "left < k' \<longrightarrow> \<not> before (s, d, t) (cands ctx ! (k' - 1))"
    proof
      assume "left < k'"
      then have "\<not> before (s, d, t) (cands ?ctx1 ! (k' - 1))" using i7 by auto
      then show "\<not> before (s, d, t) (cands ctx ! (k' - 1))"
        unfolding c1 using k'k n \<open>left < k'\<close> by (auto simp add: nth_list_update)
    qed
    have cnt: "candidateCount ctx' = candidateCount ctx" using cnt' by simp
    have lk: "left \<le> k'" using lk' True by auto
    show ?thesis
    proof (intro conjI)
      show "cand_wf ctx'" by (rule wf')
      show "candidateCount ctx' = candidateCount ctx" by (rule cnt)
      show "k' \<le> k" using k'k by simp
      show "left \<le> k \<longrightarrow> left \<le> k'" using lk by simp
      show "mset ((cands ctx')[k' := v]) = mset ((cands ctx)[k := v])"
        using hole h by simp
    qed (rule 4 5 6 7)+
  qed
qed


definition seg_sorted :: "cand list \<Rightarrow> nat \<Rightarrow> nat \<Rightarrow> bool" where
  "seg_sorted xs l h \<longleftrightarrow> (\<forall>a b. l \<le> a \<and> a < b \<and> b < h \<longrightarrow> ranked_le (xs ! a) (xs ! b))"

definition same_outside :: "cand list \<Rightarrow> cand list \<Rightarrow> nat \<Rightarrow> nat \<Rightarrow> bool" where
  "same_outside xs ys l h \<longleftrightarrow>
     (\<forall>idx. (idx < l \<or> h \<le> idx) \<and> idx < length xs \<longrightarrow> xs ! idx = ys ! idx)"

lemma insertionSort_step_spec:
  assumes wf: "cand_wf ctx" and i: "left \<le> i" "i < candidateCount ctx"
    and srt: "seg_sorted (cands ctx) left i"
  shows "cand_wf (insertionSort_step left i ctx)
       \<and> candidateCount (insertionSort_step left i ctx) = candidateCount ctx
       \<and> mset (cands (insertionSort_step left i ctx)) = mset (cands ctx)
       \<and> same_outside (cands (insertionSort_step left i ctx)) (cands ctx) left (i + 1)
       \<and> seg_sorted (cands (insertionSort_step left i ctx)) left (i + 1)"
proof -
  let ?s = "candidateScores ctx ! i" and ?d = "candidateIDs ctx ! i" and ?t = "candidateTexts ctx ! i"
  let ?v = "(?s, ?d, ?t)"
  let ?xs = "cands ctx"
  obtain ctx' k' where sh: "insertionSort_shift ctx left i ?s ?d = (ctx', k')"
    by (cases "insertionSort_shift ctx left i ?s ?d")
  note sp = insertionSort_shift_spec [OF wf i(2) sh, of ?v ?t]
  note c2 = conjunct2
  note wf' = sp [THEN conjunct1] and cnt' = sp [THEN c2, THEN conjunct1]
    and k'i = sp [THEN c2, THEN c2, THEN conjunct1]
    and lk' = sp [THEN c2, THEN c2, THEN c2, THEN conjunct1]
    and hole = sp [THEN c2, THEN c2, THEN c2, THEN c2, THEN conjunct1]
    and p4 = sp [THEN c2, THEN c2, THEN c2, THEN c2, THEN c2, THEN conjunct1]
    and p5 = sp [THEN c2, THEN c2, THEN c2, THEN c2, THEN c2, THEN c2, THEN conjunct1]
    and p6 = sp [THEN c2, THEN c2, THEN c2, THEN c2, THEN c2, THEN c2, THEN c2, THEN conjunct1]
    and p7 = sp [THEN c2, THEN c2, THEN c2, THEN c2, THEN c2, THEN c2, THEN c2, THEN c2]
  let ?ctx2 = "ctx'\<lparr>candidateScores := (candidateScores ctx')[k' := ?s],
               candidateIDs := (candidateIDs ctx')[k' := ?d],
               candidateTexts := (candidateTexts ctx')[k' := ?t]\<rparr>"
  let ?ys = "(cands ctx')[k' := ?v]"
  have res: "insertionSort_step left i ctx = ?ctx2"
    by (simp add: insertionSort_step_def Let_def sh)
  have ys: "cands ?ctx2 = ?ys" by (rule cands_upd)
  have v: "?xs ! i = ?v" using wf i(2) by (rule cands_nth)
  have lk: "left \<le> k'" using lk' i(1) by simp
  have len: "length (cands ctx') = candidateCount ctx" "length ?xs = candidateCount ctx"
    using wf wf' cnt' by simp_all
  have k'len: "k' < length (cands ctx')" using k'i i(2) len by simp
  have n1: "\<And>idx. idx < k' \<Longrightarrow> ?ys ! idx = ?xs ! idx"
    using p4 by simp
  have n2: "?ys ! k' = ?v" using k'len by simp
  have n3: "\<And>idx. k' < idx \<Longrightarrow> idx \<le> i \<Longrightarrow> ?ys ! idx = ?xs ! (idx - 1)"
    using p5 by simp
  have n4: "\<And>idx. i < idx \<Longrightarrow> ?ys ! idx = ?xs ! idx"
    using p4 k'i by simp
  have m: "mset ?ys = mset ?xs"
    using hole v by (metis list_update_id)
  have so: "same_outside ?ys ?xs left (i + 1)"
    unfolding same_outside_def using n1 n4 lk by auto
  have ss: "seg_sorted ?ys left (i + 1)"
    unfolding seg_sorted_def
  proof (intro allI impI)
    fix a b assume ab: "left \<le> a \<and> a < b \<and> b < i + 1"
    have old: "\<And>a b. left \<le> a \<Longrightarrow> a < b \<Longrightarrow> b < i \<Longrightarrow> ranked_le (?xs ! a) (?xs ! b)"
      using srt unfolding seg_sorted_def by blast
    consider "b < k'" | "a < k'" "b = k'" | "a < k'" "k' < b" | "a = k'" | "k' < a"
      using ab by linarith
    then show "ranked_le (?ys ! a) (?ys ! b)"
    proof cases
      case 1
      then show ?thesis using ab n1 old k'i by simp
    next
      case 2
      have "ranked_le (?xs ! (k' - 1)) ?v"
        using p7 2 ab by (simp add: not_before)
      moreover have "a = k' - 1 \<or> ranked_le (?xs ! a) (?xs ! (k' - 1))"
        using old [of a "k' - 1"] 2 ab k'i by force
      ultimately have "ranked_le (?xs ! a) ?v"
        using ranked_le_trans by blast
      then show ?thesis using 2 n1 n2 by simp
    next
      case 3
      then have "ranked_le (?xs ! a) (?xs ! (b - 1))"
        using old [of a "b - 1"] ab by force
      then show ?thesis using 3 ab n1 [of a] n3 [of b] by simp
    next
      case 4
      then have "before ?v (?xs ! (b - 1))" using p6 [rule_format, of "b - 1"] ab by force
      then show ?thesis using 4 ab n2 n3 [of b] before_imp_ranked_le by simp
    next
      case 5
      then have "ranked_le (?xs ! (a - 1)) (?xs ! (b - 1))"
        using old [of "a - 1" "b - 1"] ab lk by force
      then show ?thesis using 5 ab n3 [of a] n3 [of b] by simp
    qed
  qed
  show ?thesis
    unfolding res ys using wf' cnt' m so ss by (simp add: cand_wf_upd)
qed


lemma same_outside_trans:
  "same_outside xs ys l h \<Longrightarrow> same_outside ys zs l' h' \<Longrightarrow> length xs = length ys \<Longrightarrow>
   l'' \<le> l \<Longrightarrow> l'' \<le> l' \<Longrightarrow> h \<le> h'' \<Longrightarrow> h' \<le> h'' \<Longrightarrow> same_outside xs zs l'' h''"
  unfolding same_outside_def
proof (intro allI impI)
  fix idx
  assume a: "\<forall>idx. (idx < l \<or> h \<le> idx) \<and> idx < length xs \<longrightarrow> xs ! idx = ys ! idx"
    and b: "\<forall>idx. (idx < l' \<or> h' \<le> idx) \<and> idx < length ys \<longrightarrow> ys ! idx = zs ! idx"
    and len: "length xs = length ys"
    and o: "l'' \<le> l" "l'' \<le> l'" "h \<le> h''" "h' \<le> h''"
    and i: "(idx < l'' \<or> h'' \<le> idx) \<and> idx < length xs"
  from i o have "(idx < l \<or> h \<le> idx) \<and> idx < length xs" by linarith
  with a have 1: "xs ! idx = ys ! idx" by blast
  from i o len have "(idx < l' \<or> h' \<le> idx) \<and> idx < length ys" by linarith
  with b have "ys ! idx = zs ! idx" by blast
  with 1 show "xs ! idx = zs ! idx" by simp
qed

lemma same_outside_refl [simp]: "same_outside xs xs l h"
  by (simp add: same_outside_def)

definition sorted_post :: "Context \<Rightarrow> Context \<Rightarrow> nat \<Rightarrow> nat \<Rightarrow> bool" where
  "sorted_post ctx ctx' l h \<longleftrightarrow>
     cand_wf ctx' \<and> candidateCount ctx' = candidateCount ctx
     \<and> mset (cands ctx') = mset (cands ctx)
     \<and> same_outside (cands ctx') (cands ctx) l h
     \<and> seg_sorted (cands ctx') l h"

lemma insertionSort_fold:
  "cand_wf ctx \<Longrightarrow> left + n < candidateCount ctx \<Longrightarrow>
   sorted_post ctx (fold (insertionSort_step left) [left + 1..<left + 1 + n] ctx) left (left + n + 1)"
proof (induction n)
  case 0
  then show ?case by (auto simp add: sorted_post_def seg_sorted_def)
next
  case (Suc n)
  let ?ctx1 = "fold (insertionSort_step left) [left + 1..<left + 1 + n] ctx"
  have ih: "sorted_post ctx ?ctx1 left (left + n + 1)"
    using Suc by simp
  have e: "[left + 1..<left + 1 + Suc n] = [left + 1..<left + 1 + n] @ [left + n + 1]"
    by simp
  have r: "fold (insertionSort_step left) [left + 1..<left + 1 + Suc n] ctx
      = insertionSort_step left (left + n + 1) ?ctx1"
    unfolding e by simp
  have "cand_wf ?ctx1" "left \<le> left + n + 1" "left + n + 1 < candidateCount ?ctx1"
    "seg_sorted (cands ?ctx1) left (left + n + 1)"
    using ih Suc.prems by (simp_all add: sorted_post_def)
  from insertionSort_step_spec [OF this] ih
  show ?case
    unfolding r sorted_post_def
    by (auto intro: same_outside_trans [where l = left and l' = left and h = "left + n + 1 + 1"
          and h' = "left + n + 1"])
qed

lemma insertionSort_spec:
  assumes "cand_wf ctx" "left \<le> right" "right < candidateCount ctx"
  shows "sorted_post ctx (insertionSort ctx left right) left (right + 1)"
proof -
  have "right = left + (right - left)" using assms(2) by simp
  then obtain n where n: "right = left + n" ..
  show ?thesis
    using insertionSort_fold [of ctx left n] assms n
    by (simp add: insertionSort_def add.commute add.left_commute)
qed


lemma shellSort_shift_hole:
  "cand_wf ctx \<Longrightarrow> j < candidateCount ctx \<Longrightarrow>
   shellSort_shift ctx gap j s d = (ctx', j') \<Longrightarrow>
   cand_wf ctx' \<and> candidateCount ctx' = candidateCount ctx \<and> j' \<le> j
   \<and> mset ((cands ctx')[j' := v]) = mset ((cands ctx)[j := v])"
proof (induction ctx gap j s d arbitrary: ctx' j' rule: shellSort_shift.induct)
  case (1 ctx gap j s d)
  let ?c = "0 < gap \<and> j \<ge> gap \<and> (candidateScores ctx ! (j - gap) < s
          \<or> (candidateScores ctx ! (j - gap) = s \<and> candidateIDs ctx ! (j - gap) > d))"
  show ?case
  proof (cases ?c)
    case False
    then have e: "ctx' = ctx" "j' = j"
      using "1.prems"(3) by (subst (asm) shellSort_shift.simps, auto)+
    with "1.prems" show ?thesis by simp
  next
    case True
    let ?ctx1 = "ctx\<lparr>candidateScores := (candidateScores ctx)[j := candidateScores ctx ! (j - gap)],
              candidateIDs := (candidateIDs ctx)[j := candidateIDs ctx ! (j - gap)],
              candidateTexts := (candidateTexts ctx)[j := candidateTexts ctx ! (j - gap)]\<rparr>"
    have r: "shellSort_shift ?ctx1 gap (j - gap) s d = (ctx', j')"
      using "1.prems"(3) True by (subst (asm) shellSort_shift.simps) simp
    have wf1: "cand_wf ?ctx1" using "1.prems"(1) by (rule cand_wf_upd)
    have j1: "j - gap < candidateCount ?ctx1" using "1.prems"(2) by simp
    note ih = "1.IH" [OF True wf1 j1 r]
    have jg: "j - gap < candidateCount ctx" using "1.prems"(2) by simp
    have c1: "cands ?ctx1 = (cands ctx)[j := cands ctx ! (j - gap)]"
      using "1.prems"(1) jg by (simp add: cands_upd cands_nth)
    have "mset ((cands ?ctx1)[j - gap := v]) = mset ((cands ctx)[j := v])"
      unfolding c1 using "1.prems"(1,2) jg by (intro hole_step) simp_all
    moreover have "j' \<le> j - gap" using ih by (elim conjE)
    then have "j' \<le> j" by linarith
    ultimately show ?thesis using ih by simp
  qed
qed

definition perm_post :: "Context \<Rightarrow> Context \<Rightarrow> bool" where
  "perm_post ctx ctx' \<longleftrightarrow>
     cand_wf ctx' \<and> candidateCount ctx' = candidateCount ctx \<and> mset (cands ctx') = mset (cands ctx)"

lemma shellSort_step_perm:
  assumes wf: "cand_wf ctx" and i: "i < candidateCount ctx"
  shows "perm_post ctx (shellSort_step gap i ctx)"
proof -
  let ?s = "candidateScores ctx ! i" and ?d = "candidateIDs ctx ! i" and ?t = "candidateTexts ctx ! i"
  let ?v = "(?s, ?d, ?t)"
  obtain ctx' j' where sh: "shellSort_shift ctx gap i ?s ?d = (ctx', j')"
    by (cases "shellSort_shift ctx gap i ?s ?d")
  note sp = shellSort_shift_hole [OF wf i sh, of ?v]
  have res: "shellSort_step gap i ctx = ctx'\<lparr>candidateScores := (candidateScores ctx')[j' := ?s],
               candidateIDs := (candidateIDs ctx')[j' := ?d],
               candidateTexts := (candidateTexts ctx')[j' := ?t]\<rparr>"
    by (simp add: shellSort_step_def Let_def sh)
  have v: "cands ctx ! i = ?v" using wf i by (rule cands_nth)
  have "mset ((cands ctx')[j' := ?v]) = mset (cands ctx)"
    using sp v by (metis list_update_id)
  then show ?thesis
    unfolding res perm_post_def cands_upd using sp by (simp add: cand_wf_upd)
qed

lemma shellSort_pass_perm:
  "cand_wf ctx \<Longrightarrow> \<forall>i \<in> set is. i < candidateCount ctx \<Longrightarrow>
   perm_post ctx (fold (shellSort_step gap) is ctx)"
proof (induction "is" arbitrary: ctx)
  case Nil
  then show ?case by (simp add: perm_post_def)
next
  case (Cons i "is")
  have p: "perm_post ctx (shellSort_step gap i ctx)"
    using Cons.prems by (intro shellSort_step_perm) simp_all
  then have "perm_post (shellSort_step gap i ctx) (fold (shellSort_step gap) is (shellSort_step gap i ctx))"
    using Cons.prems by (intro Cons.IH) (simp_all add: perm_post_def)
  with p show ?case by (simp add: perm_post_def)
qed

lemma shellSort_shift_gap1:
  "shellSort_shift ctx (Suc 0) j s d = insertionSort_shift ctx 0 j s d"
proof (induction ctx "0 :: nat" j s d rule: insertionSort_shift.induct)
  case (1 ctx k s d)
  show ?case
  proof (cases "k > 0 \<and> (candidateScores ctx ! (k - 1) < s
          \<or> (candidateScores ctx ! (k - 1) = s \<and> candidateIDs ctx ! (k - 1) > d))")
    case True
    then show ?thesis
      using "1.hyps" [OF True]
      by (subst shellSort_shift.simps, subst insertionSort_shift.simps) (simp add: Suc_le_eq)
  next
    case False
    then show ?thesis
      by (subst shellSort_shift.simps, subst insertionSort_shift.simps) (auto simp add: Suc_le_eq)
  qed
qed

lemma shellSort_step_gap1: "shellSort_step (Suc 0) = insertionSort_step 0"
  by (intro ext) (simp add: shellSort_step_def insertionSort_step_def shellSort_shift_gap1)

lemma shellSort_unfold:
  "shellSort ctx =
     insertionSort
       (fold (shellSort_step 3) [3..<candidateCount ctx]
         (fold (shellSort_step 5) [5..<candidateCount ctx] ctx)) 0 (candidateCount ctx - 1)"
proof (cases "candidateCount ctx = 0")
  case True
  then show ?thesis by (simp add: shellSort_def insertionSort_def)
next
  case False
  then have "[0 + 1..<candidateCount ctx - 1 + 1] = [Suc 0..<candidateCount ctx]" by simp
  then show ?thesis
    unfolding insertionSort_def by (simp add: shellSort_def shellSort_step_gap1 Let_def)
qed

lemma shellSort_spec:
  assumes "cand_wf ctx"
  shows "sorted_post ctx (shellSort ctx) 0 (candidateCount ctx)"
proof -
  let ?n = "candidateCount ctx"
  let ?c5 = "fold (shellSort_step 5) [5..<?n] ctx"
  let ?c3 = "fold (shellSort_step 3) [3..<?n] ?c5"
  have p5: "perm_post ctx ?c5" using assms by (intro shellSort_pass_perm) simp_all
  then have p3: "perm_post ?c5 ?c3" by (intro shellSort_pass_perm) (simp_all add: perm_post_def)
  show ?thesis
  proof (cases "?n = 0")
    case True
    with assms show ?thesis
      by (simp add: shellSort_unfold insertionSort_def sorted_post_def seg_sorted_def)
  next
    case False
    have "sorted_post ?c3 (insertionSort ?c3 0 (?n - 1)) 0 (?n - 1 + 1)"
      using p5 p3 False by (intro insertionSort_spec) (simp_all add: perm_post_def)
    moreover have "?n - 1 + 1 = ?n" using False by simp
    ultimately have sp: "sorted_post ?c3 (insertionSort ?c3 0 (?n - 1)) 0 ?n" by simp
    let ?r = "insertionSort ?c3 0 (?n - 1)"
    have n3: "candidateCount ?c3 = ?n" and m3: "mset (cands ?c3) = mset (cands ctx)"
      using p5 p3 by (simp_all add: perm_post_def)
    have wf: "cand_wf ?r" and cnt: "candidateCount ?r = ?n"
      and ms: "mset (cands ?r) = mset (cands ctx)" and ss: "seg_sorted (cands ?r) 0 ?n"
      using sp n3 m3 by (simp_all add: sorted_post_def)
    have "length (cands ?r) = ?n" using wf cnt by simp
    then have "same_outside (cands ?r) (cands ctx) 0 ?n"
      unfolding same_outside_def by auto
    with wf cnt ms ss show ?thesis
      unfolding shellSort_unfold sorted_post_def by blast
  qed
qed


lemma cands_swap:
  assumes "cand_wf ctx" "i < candidateCount ctx" "j < candidateCount ctx"
  shows "cands (swapCandidates ctx i j) = (cands ctx)[i := cands ctx ! j, j := cands ctx ! i]"
    and "cand_wf (swapCandidates ctx i j)"
    and "candidateCount (swapCandidates ctx i j) = candidateCount ctx"
  using assms by (simp_all add: swapCandidates_def cands_def zip_update cand_wf_def)

definition cmpc :: "real \<Rightarrow> gostring \<Rightarrow> cand \<Rightarrow> int" where
  "cmpc p pid x = compareScoreAndID (fst x) (fst (snd x)) p pid"

lemma cmpc_pos: "cmpc p pid x > 0 \<longleftrightarrow> before x (p, pid, t)"
  by (auto simp add: cmpc_def compareScoreAndID_def before_def)

lemma cmpc_neg: "cmpc p pid x < 0 \<longleftrightarrow> before (p, pid, t) x"
  by (auto simp add: cmpc_def compareScoreAndID_def before_def)

lemma cmpc_zero: "cmpc p pid x = 0 \<longleftrightarrow> rank x = rank (p, pid, t)"
  by (auto simp add: cmpc_def compareScoreAndID_def rank_def)

definition part_inv ::
  "real \<Rightarrow> gostring \<Rightarrow> nat \<Rightarrow> nat \<Rightarrow> cand list \<Rightarrow> nat \<Rightarrow> nat \<Rightarrow> nat \<Rightarrow> bool" where
  "part_inv p pid low high xs lt i gt \<longleftrightarrow>
     low \<le> lt \<and> lt < i \<and> i \<le> gt \<and> gt \<le> high + 1 \<and> high < length xs
     \<and> (\<forall>idx. low \<le> idx \<and> idx < lt \<longrightarrow> cmpc p pid (xs ! idx) > 0)
     \<and> (\<forall>idx. lt \<le> idx \<and> idx < i \<longrightarrow> cmpc p pid (xs ! idx) = 0)
     \<and> (\<forall>idx. gt \<le> idx \<and> idx \<le> high \<longrightarrow> cmpc p pid (xs ! idx) < 0)"

lemma part_inv_gt:
  assumes "part_inv p pid low high xs lt i gt" "i < gt" "cmpc p pid (xs ! i) > 0"
  shows "part_inv p pid low high (xs[lt := xs ! i, i := xs ! lt]) (lt + 1) (i + 1) gt"
  using assms unfolding part_inv_def
  by (auto simp add: nth_list_update)

lemma part_inv_lt:
  assumes "part_inv p pid low high xs lt i gt" "i < gt" "cmpc p pid (xs ! i) < 0"
  shows "part_inv p pid low high (xs[i := xs ! (gt - 1), gt - 1 := xs ! i]) lt i (gt - 1)"
  using assms unfolding part_inv_def
  by (auto simp add: nth_list_update)

lemma part_inv_eq:
  assumes "part_inv p pid low high xs lt i gt" "i < gt" "cmpc p pid (xs ! i) = 0"
  shows "part_inv p pid low high xs lt (i + 1) gt"
  using assms unfolding part_inv_def
  by (auto simp add: less_Suc_eq)


lemma same_outside_swap:
  assumes "low \<le> i" "i \<le> high" "low \<le> j" "j \<le> high"
  shows "same_outside (xs[i := a, j := b]) xs low (high + 1)"
  using assms unfolding same_outside_def by (auto simp add: nth_list_update)

lemma partition3Way_loop_spec:
  "partition3Way_loop ctx p pid lt i gt = (ctx', lt', gt') \<Longrightarrow> cand_wf ctx \<Longrightarrow>
   part_inv p pid low high (cands ctx) lt i gt \<Longrightarrow>
   cand_wf ctx' \<and> candidateCount ctx' = candidateCount ctx
   \<and> mset (cands ctx') = mset (cands ctx)
   \<and> same_outside (cands ctx') (cands ctx) low (high + 1)
   \<and> part_inv p pid low high (cands ctx') lt' gt' gt'"
proof (induction ctx p pid lt i gt arbitrary: ctx' lt' gt' rule: partition3Way_loop.induct)
  case (1 ctx p pid lt i gt)
  note inv = "1.prems"(3)
  note wf = "1.prems"(2)
  have b: "low \<le> lt" "lt < i" "i \<le> gt" "gt \<le> high + 1" "high < candidateCount ctx"
    using inv wf by (simp_all add: part_inv_def)
  show ?case
  proof (cases "i < gt")
    case False
    then have e: "ctx' = ctx" "lt' = lt" "gt' = gt"
      using "1.prems"(1) by (subst (asm) partition3Way_loop.simps, simp)+
    from False b have "i = gt" by simp
    with inv e wf show ?thesis by simp
  next
    case True
    have il: "i < candidateCount ctx" "lt < candidateCount ctx" "gt - 1 < candidateCount ctx"
      using b True by simp_all
    let ?cmp = "compareScoreAndID (candidateScores ctx ! i) (candidateIDs ctx ! i) p pid"
    have cmp: "?cmp = cmpc p pid (cands ctx ! i)"
      using wf il by (simp add: cmpc_def cands_nth)
    consider "?cmp > 0" | "\<not> ?cmp > 0" "?cmp < 0" | "\<not> ?cmp > 0" "\<not> ?cmp < 0" by blast
    then show ?thesis
    proof cases
      case 1
      let ?ctx1 = "swapCandidates ctx lt i"
      have r: "partition3Way_loop ?ctx1 p pid (lt + 1) (i + 1) gt = (ctx', lt', gt')"
        using "1.prems"(1) True 1 by (subst (asm) partition3Way_loop.simps) (simp add: Let_def)
      note sw = cands_swap [OF wf il(2) il(1)]
      have inv1: "part_inv p pid low high (cands ?ctx1) (lt + 1) (i + 1) gt"
        unfolding sw(1) using inv True 1 cmp by (intro part_inv_gt) simp_all
      note ih = "1.IH"(1) [OF True refl 1 r sw(2) inv1]
      have m: "mset (cands ?ctx1) = mset (cands ctx)"
        unfolding sw(1) using wf il by (intro mset_swap) simp_all
      have so: "same_outside (cands ?ctx1) (cands ctx) low (high + 1)"
        unfolding sw(1) using b True by (intro same_outside_swap) simp_all
      have "same_outside (cands ctx') (cands ctx) low (high + 1)"
        using ih so sw wf
        by (intro same_outside_trans [of "cands ctx'" "cands ?ctx1" low "high + 1" "cands ctx" low "high + 1"])
          simp_all
      with ih m sw(3) show ?thesis by simp
    next
      case 2
      let ?ctx1 = "swapCandidates ctx i (gt - 1)"
      have r: "partition3Way_loop ?ctx1 p pid lt i (gt - 1) = (ctx', lt', gt')"
        using "1.prems"(1) True 2 by (subst (asm) partition3Way_loop.simps) (simp add: Let_def)
      note sw = cands_swap [OF wf il(1) il(3)]
      have inv1: "part_inv p pid low high (cands ?ctx1) lt i (gt - 1)"
        unfolding sw(1) using inv True 2 cmp by (intro part_inv_lt) simp_all
      note ih = "1.IH"(2) [OF True refl 2 r sw(2) inv1]
      have m: "mset (cands ?ctx1) = mset (cands ctx)"
        unfolding sw(1) using wf il by (intro mset_swap) simp_all
      have so: "same_outside (cands ?ctx1) (cands ctx) low (high + 1)"
        unfolding sw(1) using b True by (intro same_outside_swap) simp_all
      have "same_outside (cands ctx') (cands ctx) low (high + 1)"
        using ih so sw wf
        by (intro same_outside_trans [of "cands ctx'" "cands ?ctx1" low "high + 1" "cands ctx" low "high + 1"])
          simp_all
      with ih m sw(3) show ?thesis by simp
    next
      case 3
      have r: "partition3Way_loop ctx p pid lt (i + 1) gt = (ctx', lt', gt')"
        using "1.prems"(1) True 3 by (subst (asm) partition3Way_loop.simps) (simp add: Let_def)
      have inv1: "part_inv p pid low high (cands ctx) lt (i + 1) gt"
        using inv True 3 cmp by (intro part_inv_eq) simp_all
      from "1.IH"(3) [OF True refl 3 r wf inv1] show ?thesis .
    qed
  qed
qed

lemma partition3Way_spec:
  assumes r: "partition3Way ctx low high = (ctx', lt, g)"
    and wf: "cand_wf ctx" and lh: "low \<le> high" "high < candidateCount ctx"
  shows "cand_wf ctx' \<and> candidateCount ctx' = candidateCount ctx
       \<and> mset (cands ctx') = mset (cands ctx)
       \<and> same_outside (cands ctx') (cands ctx) low (high + 1)
       \<and> low \<le> lt \<and> lt \<le> g \<and> g \<le> high
       \<and> (\<forall>idx. low \<le> idx \<and> idx < lt \<longrightarrow> before (cands ctx' ! idx) (cands ctx ! low))
       \<and> (\<forall>idx. lt \<le> idx \<and> idx \<le> g \<longrightarrow> rank (cands ctx' ! idx) = rank (cands ctx ! low))
       \<and> (\<forall>idx. g < idx \<and> idx \<le> high \<longrightarrow> before (cands ctx ! low) (cands ctx' ! idx))"
proof -
  let ?p = "candidateScores ctx ! low" and ?pid = "candidateIDs ctx ! low"
  obtain gt where l: "partition3Way_loop ctx ?p ?pid low (low + 1) (high + 1) = (ctx', lt, gt)"
    and g: "g = gt - 1"
    using r by (auto simp add: partition3Way_def Let_def split: prod.splits)
  have pv: "cands ctx ! low = (?p, ?pid, candidateTexts ctx ! low)"
    using wf lh by (simp add: cands_nth)
  have "cmpc ?p ?pid (cands ctx ! low) = 0"
    unfolding pv by (simp add: cmpc_def compareScoreAndID_def)
  then have inv: "part_inv ?p ?pid low high (cands ctx) low (low + 1) (high + 1)"
    using lh wf unfolding part_inv_def by (auto simp add: less_Suc_eq)
  note sp = partition3Way_loop_spec [OF l wf inv]
  have pi: "part_inv ?p ?pid low high (cands ctx') lt gt gt" using sp by simp
  have b: "low \<le> lt" "lt \<le> g" "g \<le> high" "lt < gt" "gt \<le> high + 1"
    using pi g by (auto simp add: part_inv_def)
  have 1: "\<forall>idx. low \<le> idx \<and> idx < lt \<longrightarrow> before (cands ctx' ! idx) (cands ctx ! low)"
    using pi unfolding part_inv_def pv cmpc_pos [symmetric] by blast
  have 2: "\<forall>idx. lt \<le> idx \<and> idx \<le> g \<longrightarrow> rank (cands ctx' ! idx) = rank (cands ctx ! low)"
  proof (intro allI impI)
    fix idx assume "lt \<le> idx \<and> idx \<le> g"
    then have "lt \<le> idx \<and> idx < gt" using g b by linarith
    then have "cmpc ?p ?pid (cands ctx' ! idx) = 0" using pi unfolding part_inv_def by blast
    then show "rank (cands ctx' ! idx) = rank (cands ctx ! low)"
      unfolding pv by (rule cmpc_zero [THEN iffD1])
  qed
  have 3: "\<forall>idx. g < idx \<and> idx \<le> high \<longrightarrow> before (cands ctx ! low) (cands ctx' ! idx)"
  proof (intro allI impI)
    fix idx assume "g < idx \<and> idx \<le> high"
    then have "gt \<le> idx \<and> idx \<le> high" using g b by linarith
    then have "cmpc ?p ?pid (cands ctx' ! idx) < 0" using pi unfolding part_inv_def by blast
    then show "before (cands ctx ! low) (cands ctx' ! idx)"
      unfolding pv by (rule cmpc_neg [THEN iffD1])
  qed
  from sp b 1 2 3 show ?thesis by simp
qed


lemma split3: "l \<le> h \<Longrightarrow> xs = take l xs @ take (h - l) (drop l xs) @ drop h xs"
proof -
  assume "l \<le> h"
  then have "drop (h - l) (drop l xs) = drop h xs" by simp
  then have "drop l xs = take (h - l) (drop l xs) @ drop h xs"
    by (metis append_take_drop_id)
  then show ?thesis by (metis append_take_drop_id)
qed

lemma mset_mid:
  assumes len: "length ys = length xs" and m: "mset ys = mset xs" and lh: "l \<le> h" "h \<le> length xs"
    and so: "same_outside ys xs l h"
  shows "mset (take (h - l) (drop l ys)) = mset (take (h - l) (drop l xs))"
proof -
  have t: "take l ys = take l xs"
    using so len lh unfolding same_outside_def by (auto simp add: list_eq_iff_nth_eq)
  have d: "drop h ys = drop h xs"
    using so len lh unfolding same_outside_def by (auto simp add: list_eq_iff_nth_eq)
  have "mset (take l ys @ take (h - l) (drop l ys) @ drop h ys)
      = mset (take l xs @ take (h - l) (drop l xs) @ drop h xs)"
    using m split3 [OF lh(1), of xs] split3 [OF lh(1), of ys] by simp
  then show ?thesis unfolding t d by simp
qed

lemma seg_all:
  assumes len: "length ys = length xs" and m: "mset ys = mset xs" and h: "h \<le> length xs"
    and so: "same_outside ys xs l h"
    and q: "\<forall>idx. l \<le> idx \<and> idx < h \<longrightarrow> Q (xs ! idx)"
  shows "\<forall>idx. l \<le> idx \<and> idx < h \<longrightarrow> Q (ys ! idx)"
proof (intro allI impI)
  fix idx assume i: "l \<le> idx \<and> idx < h"
  then have lh: "l \<le> h" by simp
  let ?my = "take (h - l) (drop l ys)" and ?mx = "take (h - l) (drop l xs)"
  have "set ?my = set ?mx"
    using mset_mid [OF len m lh h so] by (rule mset_eq_setD)
  moreover have il: "idx - l < h - l" "l + (idx - l) = idx" "l \<le> length ys"
    using i len h by linarith+
  have "ys ! idx = ?my ! (idx - l)" using il by (simp add: nth_drop)
  moreover have "idx - l < length ?my" using il len h by simp
  ultimately have "ys ! idx \<in> set ?mx" by (metis nth_mem)
  then obtain k where k: "k < length ?mx" "ys ! idx = ?mx ! k"
    by (metis in_set_conv_nth)
  then have "ys ! idx = xs ! (l + k)" using h lh by (simp add: nth_drop)
  moreover have "l \<le> l + k \<and> l + k < h" using k(1) h lh by simp
  ultimately show "Q (ys ! idx)" using q by metis
qed

lemma sorted_post_trivial:
  "cand_wf ctx \<Longrightarrow> h \<le> l + 1 \<Longrightarrow> sorted_post ctx ctx l h"
  by (auto simp add: sorted_post_def seg_sorted_def)

lemma rank_eq_ranked_le: "rank a = rank b \<Longrightarrow> ranked_le a b"
  by (simp add: ranked_le_rank)

text \<open>Putting the three parts of a partition together again.\<close>

lemma seg_sorted_join:
  assumes l: "seg_sorted xs low lt" and r: "seg_sorted xs (g + 1) (high + 1)"
    and b: "low \<le> lt" "lt \<le> g" "g \<le> high"
    and 1: "\<forall>idx. low \<le> idx \<and> idx < lt \<longrightarrow> before (xs ! idx) pv"
    and 2: "\<forall>idx. lt \<le> idx \<and> idx < g + 1 \<longrightarrow> rank (xs ! idx) = rank pv"
    and 3: "\<forall>idx. g + 1 \<le> idx \<and> idx < high + 1 \<longrightarrow> before pv (xs ! idx)"
  shows "seg_sorted xs low (high + 1)"
  unfolding seg_sorted_def
proof (intro allI impI)
  fix a c assume ac: "low \<le> a \<and> a < c \<and> c < high + 1"
  have L: "\<And>i. low \<le> i \<Longrightarrow> i < lt \<Longrightarrow> ranked_le (xs ! i) pv"
    using 1 before_imp_ranked_le by blast
  have M: "\<And>i. lt \<le> i \<Longrightarrow> i < g + 1 \<Longrightarrow> rank (xs ! i) = rank pv"
    using 2 by blast
  have R: "\<And>i. g + 1 \<le> i \<Longrightarrow> i < high + 1 \<Longrightarrow> ranked_le pv (xs ! i)"
    using 3 before_imp_ranked_le by blast
  consider "c < lt" | "a < lt" "lt \<le> c" "c < g + 1" | "a < lt" "g + 1 \<le> c"
    | "lt \<le> a" "c < g + 1" | "lt \<le> a" "a < g + 1" "g + 1 \<le> c" | "g + 1 \<le> a"
    by linarith
  then show "ranked_le (xs ! a) (xs ! c)"
  proof cases
    case 1
    then show ?thesis using l ac unfolding seg_sorted_def by blast
  next
    case 2
    then have "ranked_le (xs ! a) pv" "rank (xs ! c) = rank pv" using L M ac by simp_all
    then show ?thesis by (simp add: ranked_le_rank)
  next
    case 3
    then have "ranked_le (xs ! a) pv" "ranked_le pv (xs ! c)" using L R ac by simp_all
    then show ?thesis by (rule ranked_le_trans)
  next
    case 4
    then have "rank (xs ! a) = rank pv" "rank (xs ! c) = rank pv" using M ac by simp_all
    then show ?thesis by (simp add: ranked_le_rank)
  next
    case 5
    then have "rank (xs ! a) = rank pv" "ranked_le pv (xs ! c)" using M R ac by simp_all
    then show ?thesis by (simp add: ranked_le_rank)
  next
    case 6
    then show ?thesis using r ac unfolding seg_sorted_def by blast
  qed
qed


lemma post_keeps:
  assumes "sorted_post c c' l h" and "\<forall>idx. a \<le> idx \<and> idx < b \<longrightarrow> Q (cands c ! idx)"
    and "b \<le> l \<or> h \<le> a" and "b \<le> candidateCount c"
  shows "\<forall>idx. a \<le> idx \<and> idx < b \<longrightarrow> Q (cands c' ! idx)"
proof (intro allI impI)
  fix idx assume i: "a \<le> idx \<and> idx < b"
  have "length (cands c') = candidateCount c" using assms(1) by (simp add: sorted_post_def)
  with i assms(3,4) have "(idx < l \<or> h \<le> idx) \<and> idx < length (cands c')" by linarith
  then have "cands c' ! idx = cands c ! idx"
    using assms(1) unfolding sorted_post_def same_outside_def by blast
  with assms(2) i show "Q (cands c' ! idx)" by simp
qed

lemma post_keeps_sorted:
  assumes "sorted_post c c' l h" and "seg_sorted (cands c) a b"
    and "b \<le> l \<or> h \<le> a" and "b \<le> candidateCount c"
  shows "seg_sorted (cands c') a b"
  unfolding seg_sorted_def
proof (intro allI impI)
  fix x y assume i: "a \<le> x \<and> x < y \<and> y < b"
  have "length (cands c') = candidateCount c" using assms(1) by (simp add: sorted_post_def)
  with i assms(3,4) have "(x < l \<or> h \<le> x) \<and> x < length (cands c')"
    "(y < l \<or> h \<le> y) \<and> y < length (cands c')" by linarith+
  then have "cands c' ! x = cands c ! x" "cands c' ! y = cands c ! y"
    using assms(1) unfolding sorted_post_def same_outside_def by blast+
  with assms(2) i show "ranked_le (cands c' ! x) (cands c' ! y)"
    unfolding seg_sorted_def by simp
qed

lemma post_perm:
  assumes "sorted_post c c' l h" and "cand_wf c" and "h \<le> candidateCount c"
    and "\<forall>idx. l \<le> idx \<and> idx < h \<longrightarrow> Q (cands c ! idx)"
  shows "\<forall>idx. l \<le> idx \<and> idx < h \<longrightarrow> Q (cands c' ! idx)"
proof (rule seg_all [where xs = "cands c"])
  show "length (cands c') = length (cands c)" using assms(1,2) by (simp add: sorted_post_def)
  show "mset (cands c') = mset (cands c)" using assms(1) by (simp add: sorted_post_def)
  show "h \<le> length (cands c)" using assms(2,3) by simp
  show "same_outside (cands c') (cands c) l h" using assms(1) by (simp add: sorted_post_def)
  show "\<forall>idx. l \<le> idx \<and> idx < h \<longrightarrow> Q (cands c ! idx)" by (rule assms(4))
qed

lemma sorted_post_frame_trans:
  assumes "sorted_post c0 c1 l1 h1" "sorted_post c1 c2 l2 h2"
    and "l \<le> l1" "l \<le> l2" "h1 \<le> h" "h2 \<le> h"
  shows "cand_wf c2 \<and> candidateCount c2 = candidateCount c0 \<and> mset (cands c2) = mset (cands c0)
       \<and> same_outside (cands c2) (cands c0) l h"
proof -
  have "length (cands c2) = length (cands c1)"
    using assms(1,2) by (simp add: sorted_post_def)
  then have "same_outside (cands c2) (cands c0) l h"
    using assms by (intro same_outside_trans [of "cands c2" "cands c1" l2 h2 "cands c0" l1 h1])
      (simp_all add: sorted_post_def)
  then show ?thesis using assms(1,2) by (simp add: sorted_post_def)
qed

text \<open>
  After a partition around \<open>pv\<close>, sorting the two outer parts in either order sorts the
  whole segment.
\<close>

lemma quick_combine:
  assumes wf1: "cand_wf c1" and b: "low \<le> lt" "lt \<le> g" "g \<le> high" "high < candidateCount c1"
    and p1: "\<forall>idx. low \<le> idx \<and> idx < lt \<longrightarrow> before (cands c1 ! idx) pv"
    and p2: "\<forall>idx. lt \<le> idx \<and> idx < g + 1 \<longrightarrow> rank (cands c1 ! idx) = rank pv"
    and p3: "\<forall>idx. g + 1 \<le> idx \<and> idx < high + 1 \<longrightarrow> before pv (cands c1 ! idx)"
    and s: "(sorted_post c1 c2 low lt \<and> sorted_post c2 c3 (g + 1) (high + 1))
          \<or> (sorted_post c1 c2 (g + 1) (high + 1) \<and> sorted_post c2 c3 low lt)"
  shows "sorted_post c1 c3 low (high + 1)"
proof -
  from s show ?thesis
  proof (elim disjE conjE)
    assume s1: "sorted_post c1 c2 low lt" and s2: "sorted_post c2 c3 (g + 1) (high + 1)"
    have n2: "cand_wf c2" "candidateCount c2 = candidateCount c1"
      using s1 by (simp_all add: sorted_post_def)
    have f: "cand_wf c3 \<and> candidateCount c3 = candidateCount c1 \<and> mset (cands c3) = mset (cands c1)
       \<and> same_outside (cands c3) (cands c1) low (high + 1)"
      using b by (intro sorted_post_frame_trans [OF s1 s2]) simp_all
    have l: "seg_sorted (cands c3) low lt"
      using s1 b n2 by (intro post_keeps_sorted [OF s2]) (simp_all add: sorted_post_def)
    have r: "seg_sorted (cands c3) (g + 1) (high + 1)"
      using s2 by (simp add: sorted_post_def)
    have q1: "\<forall>idx. low \<le> idx \<and> idx < lt \<longrightarrow> before (cands c3 ! idx) pv"
      using b n2 by (intro post_keeps [OF s2] post_perm [OF s1 wf1] p1) simp_all
    have q2: "\<forall>idx. lt \<le> idx \<and> idx < g + 1 \<longrightarrow> rank (cands c3 ! idx) = rank pv"
      using b n2 by (intro post_keeps [OF s2] post_keeps [OF s1] p2) simp_all
    have q3: "\<forall>idx. g + 1 \<le> idx \<and> idx < high + 1 \<longrightarrow> before pv (cands c3 ! idx)"
      using b n2 by (intro post_perm [OF s2] post_keeps [OF s1] p3) simp_all
    from seg_sorted_join [OF l r b(1-3) q1 q2 q3] f show ?thesis
      by (simp add: sorted_post_def)
  next
    assume s1: "sorted_post c1 c2 (g + 1) (high + 1)" and s2: "sorted_post c2 c3 low lt"
    have n2: "cand_wf c2" "candidateCount c2 = candidateCount c1"
      using s1 by (simp_all add: sorted_post_def)
    have f: "cand_wf c3 \<and> candidateCount c3 = candidateCount c1 \<and> mset (cands c3) = mset (cands c1)
       \<and> same_outside (cands c3) (cands c1) low (high + 1)"
      using b by (intro sorted_post_frame_trans [OF s1 s2]) simp_all
    have r: "seg_sorted (cands c3) (g + 1) (high + 1)"
      using s1 b n2 by (intro post_keeps_sorted [OF s2]) (simp_all add: sorted_post_def)
    have l: "seg_sorted (cands c3) low lt"
      using s2 by (simp add: sorted_post_def)
    have q1: "\<forall>idx. low \<le> idx \<and> idx < lt \<longrightarrow> before (cands c3 ! idx) pv"
      using b n2 by (intro post_perm [OF s2] post_keeps [OF s1] p1) simp_all
    have q2: "\<forall>idx. lt \<le> idx \<and> idx < g + 1 \<longrightarrow> rank (cands c3 ! idx) = rank pv"
      using b n2 by (intro post_keeps [OF s2] post_keeps [OF s1] p2) simp_all
    have q3: "\<forall>idx. g + 1 \<le> idx \<and> idx < high + 1 \<longrightarrow> before pv (cands c3 ! idx)"
      using b n2 by (intro post_keeps [OF s2] post_perm [OF s1 wf1] p3) simp_all
    from seg_sorted_join [OF l r b(1-3) q1 q2 q3] f show ?thesis
      by (simp add: sorted_post_def)
  qed
qed


lemma quickSort_spec:
  "cand_wf ctx \<Longrightarrow> high < int (candidateCount ctx) \<Longrightarrow>
   sorted_post ctx (quickSort ctx low high) low (nat (high + 1))"
proof (induction ctx low high rule: quickSort.induct)
  case (1 ctx low high)
  note wf = "1.prems"(1) and hc = "1.prems"(2)
  show ?case
  proof (cases "int low < high")
    case False
    then have "quickSort ctx low high = ctx" by (subst quickSort.simps) simp
    moreover have "nat (high + 1) \<le> low + 1" using False by simp
    ultimately show ?thesis using wf by (simp add: sorted_post_trivial)
  next
    case lh: True
    then have nh: "low \<le> nat high" "nat high < candidateCount ctx" "nat (high + 1) = nat high + 1"
      "int (nat high) = high"
      using hc by simp_all
    show ?thesis
    proof (cases "high - int low < 10")
      case True
      then have "quickSort ctx low high = insertionSort ctx low (nat high)"
        using lh by (subst quickSort.simps) simp
      then show ?thesis using insertionSort_spec [OF wf nh(1,2)] nh(3) by simp
    next
      case big: False
      obtain c1 lt g where pt: "partition3Way ctx low (nat high) = (c1, lt, g)"
        by (cases "partition3Way ctx low (nat high)")
      note ps = partition3Way_spec [OF pt wf nh(1,2)]
      have wf1: "cand_wf c1" and n1: "candidateCount c1 = candidateCount ctx"
        and m1: "mset (cands c1) = mset (cands ctx)"
        and so1: "same_outside (cands c1) (cands ctx) low (nat high + 1)"
        and b: "low \<le> lt" "lt \<le> g" "g \<le> nat high"
        using ps by simp_all
      let ?pv = "cands ctx ! low"
      have p1: "\<forall>idx. low \<le> idx \<and> idx < lt \<longrightarrow> before (cands c1 ! idx) ?pv"
        and p2: "\<forall>idx. lt \<le> idx \<and> idx < g + 1 \<longrightarrow> rank (cands c1 ! idx) = rank ?pv"
        and p3: "\<forall>idx. g + 1 \<le> idx \<and> idx < nat high + 1 \<longrightarrow> before ?pv (cands c1 ! idx)"
        using ps by (simp_all add: less_Suc_eq_le Suc_le_eq)
      have hc1: "nat high < candidateCount c1" using nh n1 by simp
      have lt1: "nat (int lt - 1 + 1) = lt" by simp
      show ?thesis
      proof (cases "int lt - int low < high - int g")
        case True
        let ?c2 = "quickSort c1 low (int lt - 1)"
        let ?c3 = "quickSort ?c2 (g + 1) high"
        have e: "quickSort ctx low high = ?c3"
          using lh big pt True by (subst quickSort.simps) simp
        have s1: "sorted_post c1 ?c2 low lt"
          using "1.IH"(1) [OF lh big pt [symmetric] refl True wf1] b hc1 lt1 by simp
        then have wf2: "cand_wf ?c2" "candidateCount ?c2 = candidateCount c1"
          by (simp_all add: sorted_post_def)
        have s2: "sorted_post ?c2 ?c3 (g + 1) (nat high + 1)"
          using "1.IH"(2) [OF lh big pt [symmetric] refl True wf2(1)] wf2(2) hc1 nh by simp
        have "sorted_post c1 ?c3 low (nat high + 1)"
          by (rule quick_combine [OF wf1 b hc1 p1 p2 p3 disjI1 [OF conjI [OF s1 s2]]])
        then show ?thesis
          unfolding e nh(3) using wf1 n1 m1 so1
          by (auto simp add: sorted_post_def
              intro: same_outside_trans [of _ "cands c1" low "nat high + 1" _ low "nat high + 1"])
      next
        case False
        let ?c2 = "quickSort c1 (g + 1) high"
        let ?c3 = "quickSort ?c2 low (int lt - 1)"
        have e: "quickSort ctx low high = ?c3"
          using lh big pt False by (subst quickSort.simps) simp
        have s1: "sorted_post c1 ?c2 (g + 1) (nat high + 1)"
          using "1.IH"(3) [OF lh big pt [symmetric] refl False wf1] hc1 nh by simp
        then have wf2: "cand_wf ?c2" "candidateCount ?c2 = candidateCount c1"
          by (simp_all add: sorted_post_def)
        have s2: "sorted_post ?c2 ?c3 low lt"
          using "1.IH"(4) [OF lh big pt [symmetric] refl False wf2(1)] wf2(2) b hc1 lt1 by simp
        have "sorted_post c1 ?c3 low (nat high + 1)"
          by (rule quick_combine [OF wf1 b hc1 p1 p2 p3 disjI2 [OF conjI [OF s1 s2]]])
        then show ?thesis
          unfolding e nh(3) using wf1 n1 m1 so1
          by (auto simp add: sorted_post_def
              intro: same_outside_trans [of _ "cands c1" low "nat high + 1" _ low "nat high + 1"])
      qed
    qed
  qed
qed


lemma sorted_post_sorted:
  assumes "sorted_post ctx ctx' 0 (candidateCount ctx)"
  shows "sorted_wrt ranked_le (cands ctx')"
proof -
  have "length (cands ctx') = candidateCount ctx"
    using assms by (simp add: sorted_post_def)
  then show ?thesis
    using assms unfolding sorted_post_def seg_sorted_def sorted_wrt_iff_nth_less by simp
qed

lemma sorted_unique:
  assumes "mset xs = mset ys" "sorted_wrt ranked_le xs" "sorted_wrt ranked_le ys"
  shows "map rank xs = map rank ys"
proof -
  have "sorted (map rank xs)" "sorted (map rank ys)"
    using assms(2,3) by (simp_all add: sorted_map ranked_le_rank [abs_def])
  moreover have "mset (map rank xs) = mset (map rank ys)"
    using assms(1) by simp
  ultimately show ?thesis
    by (metis properties_for_sort)
qed

lemma sorted_unique_distinct:
  assumes "mset xs = mset ys" "sorted_wrt ranked_le xs" "sorted_wrt ranked_le ys"
    and "distinct (map (fst \<circ> snd) ys)"
  shows "xs = ys"
proof -
  have s: "set xs = set ys" using assms(1) by (rule mset_eq_setD)
  have "inj_on (fst \<circ> snd) (set ys)" using assms(4) by (simp add: distinct_map)
  then have "inj_on rank (set ys)"
    unfolding inj_on_def rank_def by (metis comp_apply snd_conv)
  then have "inj_on rank (set xs \<union> set ys)" using s by simp
  then show ?thesis
    using sorted_unique [OF assms(1-3)] by (simp add: inj_on_map_eq_map)
qed

lemma insertionSort_all:
  assumes "cand_wf ctx"
  shows "sorted_post ctx (insertionSort ctx 0 (candidateCount ctx - 1)) 0 (candidateCount ctx)"
proof (cases "candidateCount ctx = 0")
  case True
  with assms show ?thesis by (simp add: insertionSort_def sorted_post_trivial)
next
  case False
  then show ?thesis
    using insertionSort_spec [OF assms, of 0 "candidateCount ctx - 1"] by simp
qed

lemma quickSort_all:
  assumes "cand_wf ctx"
  shows "sorted_post ctx (quickSort ctx 0 (int (candidateCount ctx) - 1)) 0 (candidateCount ctx)"
  using quickSort_spec [OF assms, of "int (candidateCount ctx) - 1" 0] by simp

lemma sortCandidates_post:
  assumes "cand_wf ctx"
  shows "sorted_post ctx (sortCandidates ctx) 0 (candidateCount ctx)"
proof -
  have "candidateCount ctx \<le> 1 \<Longrightarrow> sorted_post ctx ctx 0 (candidateCount ctx)"
    using assms by (simp add: sorted_post_trivial)
  then show ?thesis
    using insertionSort_all [OF assms] shellSort_spec [OF assms] quickSort_all [OF assms]
    by (simp add: sortCandidates_def Let_def)
qed

lemma cands_ids: "cand_wf ctx \<Longrightarrow> map (fst \<circ> snd) (cands ctx) = candidateIDs ctx"
  by (simp add: cands_def cand_wf_def list_eq_iff_nth_eq)

text \<open>
  Claim C2: \<^verbatim>\<open>sortCandidates\<close> permutes the candidates (the multiset of triples is
  unchanged) and leaves them ordered by score descending, ties by identifier ascending.
  The three algorithms agree on every input of every size: the sequences of (score,
  identifier) pairs they produce are equal, and when the identifiers are distinct, as
  they are for candidates taken from a map, the arrays themselves are equal. So the
  result does not depend on which algorithm the candidate count selects.
\<close>

theorem sortCandidates_sorted:
  assumes "cand_wf ctx"
  shows "cand_wf (sortCandidates ctx)
       \<and> candidateCount (sortCandidates ctx) = candidateCount ctx
       \<and> mset (cands (sortCandidates ctx)) = mset (cands ctx)
       \<and> sorted_wrt ranked_le (cands (sortCandidates ctx))
       \<and> map rank (cands (shellSort ctx))
           = map rank (cands (insertionSort ctx 0 (candidateCount ctx - 1)))
       \<and> map rank (cands (quickSort ctx 0 (int (candidateCount ctx) - 1)))
           = map rank (cands (insertionSort ctx 0 (candidateCount ctx - 1)))
       \<and> (distinct (candidateIDs ctx) \<longrightarrow>
            cands (shellSort ctx) = cands (insertionSort ctx 0 (candidateCount ctx - 1))
            \<and> cands (quickSort ctx 0 (int (candidateCount ctx) - 1))
                = cands (insertionSort ctx 0 (candidateCount ctx - 1)))"
proof -
  let ?i = "insertionSort ctx 0 (candidateCount ctx - 1)"
  let ?s = "shellSort ctx"
  let ?q = "quickSort ctx 0 (int (candidateCount ctx) - 1)"
  note pi = insertionSort_all [OF assms] and ps = shellSort_spec [OF assms]
    and pq = quickSort_all [OF assms] and pc = sortCandidates_post [OF assms]
  have mi: "mset (cands ?i) = mset (cands ctx)" and ms: "mset (cands ?s) = mset (cands ctx)"
    and mq: "mset (cands ?q) = mset (cands ctx)"
    using pi ps pq by (simp_all add: sorted_post_def)
  note si = sorted_post_sorted [OF pi] and ss = sorted_post_sorted [OF ps]
    and sq = sorted_post_sorted [OF pq]
  have 1: "map rank (cands ?s) = map rank (cands ?i)"
    using ms mi ss si by (intro sorted_unique) simp_all
  have 2: "map rank (cands ?q) = map rank (cands ?i)"
    using mq mi sq si by (intro sorted_unique) simp_all
  have 3: "distinct (candidateIDs ctx) \<longrightarrow> cands ?s = cands ?i \<and> cands ?q = cands ?i"
  proof
    assume d: "distinct (candidateIDs ctx)"
    have "mset (map (fst \<circ> snd) (cands ?i)) = mset (map (fst \<circ> snd) (cands ctx))"
      using mi by (metis mset_map)
    then have "distinct (map (fst \<circ> snd) (cands ?i))"
      using d cands_ids [OF assms] by (metis mset_eq_imp_distinct_iff)
    then show "cands ?s = cands ?i \<and> cands ?q = cands ?i"
      using ms mq mi ss sq si by (intro conjI sorted_unique_distinct) simp_all
  qed
  from pc 1 2 3 sorted_post_sorted [OF pc] show ?thesis
    by (simp add: sorted_post_def)
qed

definition exampleCandidates :: Context where
  "exampleCandidates = emptyContext\<lparr>
     candidateIDs := [B ''a'', B ''b'', B ''c'', B ''d'', B ''e'', B ''f'', B ''g'', B ''h'',
       B ''i'', B ''j'', B ''k'', B ''l''],
     candidateTexts := [B ''ta'', B ''tb'', B ''tc'', B ''td'', B ''te'', B ''tf'', B ''tg'',
       B ''th'', B ''ti'', B ''tj'', B ''tk'', B ''tl''],
     candidateScores := [1, 2, 1, 3, 2, 1, 2, 3, 1, 2, 1, 2]\<rparr>"

lemmas sort_eval = exampleCandidates_def emptyContext_def B_def insertionSort_def
  insertionSort_step_def insertionSort_shift.simps shellSort_def shellSort_step_def
  shellSort_shift.simps swapCandidates_def partition3Way_loop.simps partition3Way_def
  quickSort.simps compareScoreAndID_def Let_def upt_conv_Cons

lemma exampleCandidates_quickSort:
  "candidateIDs (quickSort exampleCandidates 0 11)
     = map B [''d'', ''h'', ''b'', ''e'', ''g'', ''j'', ''l'', ''a'', ''c'', ''f'', ''i'', ''k'']"
  by (simp add: sort_eval)

lemma exampleCandidates_shellSort:
  "candidateIDs (shellSort exampleCandidates)
     = map B [''d'', ''h'', ''b'', ''e'', ''g'', ''j'', ''l'', ''a'', ''c'', ''f'', ''i'', ''k'']"
  by (simp add: sort_eval)

theorem sortCandidates_sorted_witness:
  "cand_wf exampleCandidates \<and> distinct (candidateIDs exampleCandidates)
   \<and> candidateIDs (sortCandidates exampleCandidates)
       = map B [''d'', ''h'', ''b'', ''e'', ''g'', ''j'', ''l'', ''a'', ''c'', ''f'', ''i'', ''k'']
   \<and> sorted_wrt ranked_le (cands (sortCandidates exampleCandidates))
   \<and> cands (shellSort exampleCandidates) = cands (insertionSort exampleCandidates 0 11)
   \<and> cands (quickSort exampleCandidates 0 11) = cands (insertionSort exampleCandidates 0 11)
   \<and> candidateIDs (quickSort exampleCandidates 0 11)
       = map B [''d'', ''h'', ''b'', ''e'', ''g'', ''j'', ''l'', ''a'', ''c'', ''f'', ''i'', ''k'']"
proof -
  have wf: "cand_wf exampleCandidates"
    by (simp add: cand_wf_def exampleCandidates_def emptyContext_def)
  have d: "distinct (candidateIDs exampleCandidates)"
    by (simp add: exampleCandidates_def emptyContext_def B_def)
  have n: "candidateCount exampleCandidates - 1 = 11" "int (candidateCount exampleCandidates) - 1 = 11"
    by (simp_all add: exampleCandidates_def emptyContext_def)
  have c: "sortCandidates exampleCandidates = shellSort exampleCandidates"
    by (simp add: sortCandidates_def exampleCandidates_def emptyContext_def)
  note t = sortCandidates_sorted [OF wf, unfolded n]
  have 1: "sorted_wrt ranked_le (cands (sortCandidates exampleCandidates))"
    using t by (elim conjE)
  have "distinct (candidateIDs exampleCandidates) \<longrightarrow>
      cands (shellSort exampleCandidates) = cands (insertionSort exampleCandidates 0 11)
      \<and> cands (quickSort exampleCandidates 0 11) = cands (insertionSort exampleCandidates 0 11)"
    using t by (elim conjE)
  then have 2: "cands (shellSort exampleCandidates) = cands (insertionSort exampleCandidates 0 11)
      \<and> cands (quickSort exampleCandidates 0 11) = cands (insertionSort exampleCandidates 0 11)"
    using d by (rule mp)
  show ?thesis
    using wf d 1 2 exampleCandidates_shellSort exampleCandidates_quickSort unfolding c
    by (intro conjI) simp_all
qed

section \<open>Properties of the search pipeline\<close>


text \<open>What \<^verbatim>\<open>scoreDocument\<close> leaves alone.\<close>

lemma scoreDocument_frame:
  "scoreDocument doc ctx = (score, ctx') \<Longrightarrow>
   queryNormalized ctx' = queryNormalized ctx \<and> queryWordStarts ctx' = queryWordStarts ctx
   \<and> queryWordEnds ctx' = queryWordEnds ctx \<and> candidateIDs ctx' = candidateIDs ctx
   \<and> candidateTexts ctx' = candidateTexts ctx \<and> candidateScores ctx' = candidateScores ctx
   \<and> candidateSet ctx' = candidateSet ctx"
  unfolding scoreDocument_def Let_def
  by (auto split: if_splits prod.splits)

text \<open>The fields the scorer reads.\<close>

definition scoreFields :: "Context \<Rightarrow> byte list \<times> byte list \<times> nat list \<times> nat list \<times> nat list \<times> nat list" where
  "scoreFields ctx = (queryNormalized ctx, docNormalized ctx, queryWordStarts ctx,
     queryWordEnds ctx, docWordStarts ctx, docWordEnds ctx)"

lemma scoreFields_eq:
  "scoreFields a = scoreFields b \<longleftrightarrow>
     queryNormalized a = queryNormalized b \<and> docNormalized a = docNormalized b
     \<and> queryWordStarts a = queryWordStarts b \<and> queryWordEnds a = queryWordEnds b
     \<and> docWordStarts a = docWordStarts b \<and> docWordEnds a = docWordEnds b"
  by (auto simp add: scoreFields_def)

lemma scoreDocument_docWord_cong:
  "scoreFields a = scoreFields b \<Longrightarrow>
   scoreDocument_docWord a qs qe j best = scoreDocument_docWord b qs qe j best"
  by (clarsimp simp add: scoreFields_eq scoreDocument_docWord_def Let_def cong: if_cong)

lemma scoreDocument_docWords_cong:
  "scoreFields a = scoreFields b \<Longrightarrow>
   scoreDocument_docWords a qs qe js best = scoreDocument_docWords b qs qe js best"
  by (induction js arbitrary: best)
    (simp_all add: scoreDocument_docWord_cong [of a b] split: prod.splits bool.splits)

lemma scoreDocument_queryWords_cong:
  "scoreFields a = scoreFields b \<Longrightarrow>
   scoreDocument_queryWords a is t e = scoreDocument_queryWords b is t e"
  by (induction "is" arbitrary: t e)
    (clarsimp simp add: scoreDocument_docWords_cong [of a b] scoreFields_eq split: prod.splits)+

lemma scoreSubstring_loop_cong:
  "scoreFields a = scoreFields b \<Longrightarrow> scoreSubstring_loop a i m = scoreSubstring_loop b i m"
proof (induction a i m rule: scoreSubstring_loop.induct)
  case (1 ctx i matches)
  then show ?case
    by (subst scoreSubstring_loop.simps, subst (2) scoreSubstring_loop.simps)
      (clarsimp simp add: scoreFields_eq Let_def cong: if_cong)
qed

lemma scoreSubstring_cong:
  "scoreFields a = scoreFields b \<Longrightarrow> scoreSubstring a = scoreSubstring b"
  by (simp add: scoreSubstring_def scoreSubstring_loop_cong [of a b]) (clarsimp simp add: scoreFields_eq Let_def cong: if_cong)

lemma scoreReversedWords_cong:
  "scoreFields a = scoreFields b \<Longrightarrow> scoreReversedWords a = scoreReversedWords b"
  by (clarsimp simp add: scoreReversedWords_def scoreFields_eq Let_def cong: if_cong)

definition queryPart :: "Context \<Rightarrow> byte list \<times> nat list \<times> nat list" where
  "queryPart ctx = (queryNormalized ctx, queryWordStarts ctx, queryWordEnds ctx)"

lemma scoreDocument_cong:
  assumes "queryPart a = queryPart b"
  shows "fst (scoreDocument doc a) = fst (scoreDocument doc b)"
proof -
  have q: "queryNormalized a = queryNormalized b" "queryWordStarts a = queryWordStarts b"
    "queryWordEnds a = queryWordEnds b"
    using assms by (simp_all add: queryPart_def)
  let ?d = "normalizeText doc docNormalized_len"
  have c: "\<And>s e. scoreFields (a\<lparr>docNormalized := ?d, docWordStarts := s, docWordEnds := e\<rparr>)
      = scoreFields (b\<lparr>docNormalized := ?d, docWordStarts := s, docWordEnds := e\<rparr>)"
    using q by (simp add: scoreFields_def)
  show ?thesis
    unfolding scoreDocument_def Let_def
    using q
    by (simp add: scoreDocument_queryWords_cong [OF c] scoreSubstring_cong [OF c]
        scoreReversedWords_cong [OF c] split: prod.splits)
qed

lemma scoreDocument_queryPart:
  "scoreDocument doc ctx = (score, ctx') \<Longrightarrow> queryPart ctx' = queryPart ctx"
  using scoreDocument_frame [of doc ctx score ctx'] by (simp add: queryPart_def)


lemma cands_append:
  "cand_wf ctx \<Longrightarrow>
   cands (ctx\<lparr>candidateIDs := candidateIDs ctx @ [docID],
              candidateTexts := candidateTexts ctx @ [doc],
              candidateScores := candidateScores ctx @ [score]\<rparr>) = cands ctx @ [(score, docID, doc)]
   \<and> cand_wf (ctx\<lparr>candidateIDs := candidateIDs ctx @ [docID],
              candidateTexts := candidateTexts ctx @ [doc],
              candidateScores := candidateScores ctx @ [score]\<rparr>)"
  by (simp add: cands_def cand_wf_def)

lemma scoreDocument_cands:
  "scoreDocument doc ctx = (score, ctx') \<Longrightarrow> cands ctx' = cands ctx \<and> (cand_wf ctx' \<longleftrightarrow> cand_wf ctx)"
  using scoreDocument_frame [of doc ctx score ctx'] by (simp add: cands_def cand_wf_def)

text \<open>
  An invariant of the candidate arrays: well-formed, and every candidate satisfies \<open>P\<close>;
  the query part of the context is \<open>Q\<close>.
\<close>

definition cands_inv ::
  "(cand \<Rightarrow> bool) \<Rightarrow> byte list \<times> nat list \<times> nat list \<Rightarrow> Context \<Rightarrow> bool" where
  "cands_inv P Q ctx \<longleftrightarrow> cand_wf ctx \<and> list_all P (cands ctx) \<and> queryPart ctx = Q"

lemma searchDirect_loop_inv:
  assumes step: "\<And>docID doc c. (docID, doc) \<in> set data \<Longrightarrow> queryPart c = Q \<Longrightarrow>
      0 < fst (scoreDocument doc c) \<Longrightarrow> P (fst (scoreDocument doc c), docID, doc)"
  shows "set ds \<subseteq> set data \<Longrightarrow> cands_inv P Q ctx \<Longrightarrow>
    cands_inv P Q (searchDirect_loop h ds ctx)"
proof (induction ds arbitrary: ctx)
  case Nil
  then show ?case by simp
next
  case (Cons d ds)
  obtain docID doc where d: "d = (docID, doc)" by (cases d)
  obtain score c where sc: "scoreDocument doc ctx = (score, c)" by (cases "scoreDocument doc ctx")
  have sub: "set ds \<subseteq> set data" and mem: "(docID, doc) \<in> set data"
    using Cons.prems(1) d by simp_all
  have q: "queryPart ctx = Q" and wf: "cand_wf ctx" and all: "list_all P (cands ctx)"
    using Cons.prems(2) by (simp_all add: cands_inv_def)
  have c: "cands_inv P Q c"
    using scoreDocument_cands [OF sc] scoreDocument_queryPart [OF sc] Cons.prems(2)
    by (simp add: cands_inv_def)
  let ?c' = "c\<lparr>candidateIDs := candidateIDs c @ [docID],
                candidateTexts := candidateTexts c @ [doc],
                candidateScores := candidateScores c @ [score]\<rparr>"
  have c': "0 < score \<Longrightarrow> cands_inv P Q ?c'"
  proof -
    assume "0 < score"
    then have "P (score, docID, doc)" using step [OF mem q] sc by simp
    then show ?thesis
      using c cands_append [where ctx = c and docID = docID and doc = doc and score = score] by (simp add: cands_inv_def queryPart_def)
  qed
  show ?case
    unfolding d using Cons.IH [OF sub] Cons.prems(2) c c' sc by auto
qed

definition cacheLookup :: "RuntimeSearch \<Rightarrow> gostring \<Rightarrow> gostring option" where
  "cacheLookup rs docID = (case cachedData rs of None \<Rightarrow> None | Some cd \<Rightarrow> map_of cd docID)"

lemma scoreCandidates_loop_inv:
  assumes step: "\<And>docID doc c. cacheLookup rs docID = Some doc \<Longrightarrow> queryPart c = Q \<Longrightarrow>
      0 < fst (scoreDocument doc c) \<Longrightarrow> P (fst (scoreDocument doc c), docID, doc)"
  shows "cands_inv P Q ctx \<Longrightarrow> cands_inv P Q (scoreCandidates_loop rs is ctx)"
proof (induction "is" arbitrary: ctx)
  case Nil
  then show ?case by simp
next
  case (Cons i "is")
  let ?docID = "candidateSet ctx ! i"
  show ?case
  proof (cases "cacheLookup rs ?docID")
    case None
    then show ?thesis
      using Cons by (simp add: cacheLookup_def Let_def)
  next
    case (Some doc)
    obtain score c where sc: "scoreDocument doc ctx = (score, c)" by (cases "scoreDocument doc ctx")
    have q: "queryPart ctx = Q" using Cons.prems by (simp add: cands_inv_def)
    have c: "cands_inv P Q c"
      using scoreDocument_cands [OF sc] scoreDocument_queryPart [OF sc] Cons.prems
      by (simp add: cands_inv_def)
    let ?c' = "c\<lparr>candidateIDs := candidateIDs c @ [?docID],
                  candidateTexts := candidateTexts c @ [doc],
                  candidateScores := candidateScores c @ [score]\<rparr>"
    have c': "0 < score \<Longrightarrow> cands_inv P Q ?c'"
    proof -
      assume "0 < score"
      then have "P (score, ?docID, doc)" using step [OF Some q] sc by simp
      then show ?thesis
        using c cands_append [where ctx = c and docID = ?docID and doc = doc and score = score] by (simp add: cands_inv_def queryPart_def)
    qed
    show ?thesis
      using Cons.IH Cons.prems c c' sc Some by (simp add: cacheLookup_def Let_def)
  qed
qed


lemma addToCandidateSet_queryPart [simp]:
  "queryPart (addToCandidateSet docIDs ctx) = queryPart ctx"
  by (induction docIDs ctx rule: addToCandidateSet.induct) (simp_all add: Let_def queryPart_def)

lemma findCandidates_prefix_queryPart [simp]:
  "queryPart (findCandidates_prefix rs start endi ctx) = queryPart ctx"
proof -
  have "queryPart (fold (\<lambda>(word, docIDs) ctx.
         let wordLen = length word in
         if wordLen > n \<and> wordLen - n \<le> 10 then
           (if memEqual word (subslice (queryNormalized ctx) start endi) n
            then addToCandidateSet docIDs ctx else ctx)
         else if n > wordLen \<and> n - wordLen \<le> 10 then
           (if memEqual (subslice (queryNormalized ctx) start (start + wordLen)) word wordLen
            then addToCandidateSet docIDs ctx else ctx)
         else ctx) wm ctx) = queryPart ctx" for wm n
    by (induction wm arbitrary: ctx) (auto simp add: Let_def)
  then show ?thesis
    by (simp add: findCandidates_prefix_def Let_def)
qed

lemma findCandidates_words_queryPart [simp]:
  "queryPart (findCandidates_words rs rarest ctx) = queryPart ctx"
proof -
  have "queryPart (fold (\<lambda>i ctx.
        let start = queryWordStarts ctx ! i;
            endi = queryWordEnds ctx ! i;
            queryWord = subslice (queryNormalized ctx) start endi
        in
          if queryWord = rarest then ctx
          else
            let ctx = (case map_of (cachedWordMap rs) queryWord of
                         Some docIDs \<Rightarrow> addToCandidateSet docIDs ctx
                       | None \<Rightarrow> ctx)
            in findCandidates_prefix rs start endi ctx) is ctx) = queryPart ctx" for "is"
    by (induction "is" arbitrary: ctx) (auto simp add: Let_def split: option.splits)
  then show ?thesis
    by (simp add: findCandidates_words_def)
qed

lemma findCandidates_trigrams_queryPart [simp]:
  "queryPart (findCandidates_trigrams rs i ctx) = queryPart ctx"
proof (induction rs i ctx rule: findCandidates_trigrams.induct)
  case (1 rs i ctx)
  then show ?case
    by (subst findCandidates_trigrams.simps) (auto split: option.splits)
qed

lemma queryPart_candidateSet [simp]: "queryPart (ctx\<lparr>candidateSet := s\<rparr>) = queryPart ctx"
  by (simp add: queryPart_def)

lemma findCandidates_queryPart [simp]: "queryPart (findCandidates rs ctx) = queryPart ctx"
  unfolding findCandidates_def Let_def
  by (simp split: option.splits)

lemma scoreCandidates_inv:
  assumes "\<And>docID doc c. cacheLookup rs docID = Some doc \<Longrightarrow> queryPart c = queryPart ctx \<Longrightarrow>
      0 < fst (scoreDocument doc c) \<Longrightarrow> P (fst (scoreDocument doc c), docID, doc)"
  shows "cands_inv P (queryPart ctx) (scoreCandidates rs ctx)"
  unfolding scoreCandidates_def
proof (rule scoreCandidates_loop_inv [where P = P and Q = "queryPart ctx" and rs = rs])
  fix docID doc c
  assume "cacheLookup rs docID = Some doc" "queryPart c = queryPart ctx"
    "0 < fst (scoreDocument doc c)"
  then show "P (fst (scoreDocument doc c), docID, doc)" by (rule assms)
next
  show "cands_inv P (queryPart ctx)
     (ctx\<lparr>candidateIDs := [], candidateTexts := [], candidateScores := []\<rparr>)"
    by (simp add: cands_inv_def cand_wf_def cands_def queryPart_def)
qed

lemma searchDirect_inv:
  assumes "\<And>docID doc c. (docID, doc) \<in> set data \<Longrightarrow> queryPart c = queryPart ctx \<Longrightarrow>
      0 < fst (scoreDocument doc c) \<Longrightarrow> P (fst (scoreDocument doc c), docID, doc)"
    and "cand_wf ctx" "list_all P (cands ctx)"
  shows "cands_inv P (queryPart ctx) (searchDirect data ctx)"
  unfolding searchDirect_def Let_def
proof (rule searchDirect_loop_inv [where P = P and Q = "queryPart ctx" and data = data])
  fix docID doc c
  assume "(docID, doc) \<in> set data" "queryPart c = queryPart ctx"
    "0 < fst (scoreDocument doc c)"
  then show "P (fst (scoreDocument doc c), docID, doc)" by (rule assms(1))
next
  show "set data \<subseteq> set data" by simp
next
  show "cands_inv P (queryPart ctx) ctx"
    using assms(2,3) by (simp add: cands_inv_def)
qed

lemma prepareQuery_cands [simp]:
  "cand_wf (prepareQuery query)" "cands (prepareQuery query) = []"
  by (simp_all add: prepareQuery_def emptyContext_def cand_wf_def cands_def Let_def split: prod.splits)

lemma searchWithCache_fst:
  "fst (searchWithCache rs data ctx) = fst (searchWithCache rs data ctx')"
  by (simp add: searchWithCache_def Let_def)

lemma searchWithCache_inv:
  assumes "\<And>docID doc c. cacheLookup (fst (searchWithCache rs data ctx)) docID = Some doc \<Longrightarrow>
      queryPart c = queryPart ctx \<Longrightarrow>
      0 < fst (scoreDocument doc c) \<Longrightarrow> P (fst (scoreDocument doc c), docID, doc)"
  shows "cands_inv P (queryPart ctx) (snd (searchWithCache rs data ctx))"
proof -
  let ?rs = "fst (searchWithCache rs data ctx)"
  have e: "snd (searchWithCache rs data ctx) = scoreCandidates ?rs (findCandidates ?rs ctx)"
    by (simp add: searchWithCache_def Let_def)
  show ?thesis
    unfolding e
    using scoreCandidates_inv [of ?rs "findCandidates ?rs ctx" P] assms by simp
qed

text \<open>Sorting keeps a property that every candidate has.\<close>

lemma sortCandidates_all:
  assumes "cand_wf ctx" "list_all P (cands ctx)"
  shows "cand_wf (sortCandidates ctx) \<and> list_all P (cands (sortCandidates ctx))"
proof -
  note p = sortCandidates_post [OF assms(1)]
  then have "set (cands (sortCandidates ctx)) = set (cands ctx)"
    unfolding sorted_post_def by (metis mset_eq_setD)
  with p assms(2) show ?thesis
    by (simp add: sorted_post_def list_all_iff)
qed

text \<open>
  The candidates of a search, whichever path finds them: well-formed, and each has the
  property \<open>P\<close> that the scoring step guarantees for a positive score.
\<close>

lemma searchCandidates_all:
  assumes direct: "\<And>docID doc c. (docID, doc) \<in> set data \<Longrightarrow>
      queryPart c = queryPart (prepareQuery query) \<Longrightarrow>
      0 < fst (scoreDocument doc c) \<Longrightarrow> P (fst (scoreDocument doc c), docID, doc)"
    and cached: "\<And>docID doc c.
      cacheLookup (fst (searchWithCache rs data (prepareQuery query))) docID = Some doc \<Longrightarrow>
      queryPart c = queryPart (prepareQuery query) \<Longrightarrow>
      0 < fst (scoreDocument doc c) \<Longrightarrow> P (fst (scoreDocument doc c), docID, doc)"
  shows "cand_wf (snd (searchCandidates rs data query useCache))
       \<and> list_all P (cands (snd (searchCandidates rs data query useCache)))"
proof (cases useCache)
  case True
  let ?c = "snd (searchWithCache rs data (prepareQuery query))"
  have "cands_inv P (queryPart (prepareQuery query)) ?c"
    by (rule searchWithCache_inv) (rule cached)
  then have "cand_wf ?c" "list_all P (cands ?c)" by (simp_all add: cands_inv_def)
  from sortCandidates_all [OF this] True show ?thesis
    by (simp add: searchCandidates_def Let_def split_beta)
next
  case False
  let ?c = "searchDirect data (prepareQuery query)"
  have "cands_inv P (queryPart (prepareQuery query)) ?c"
  proof (rule searchDirect_inv [where P = P and data = data])
    fix docID doc c
    assume "(docID, doc) \<in> set data" "queryPart c = queryPart (prepareQuery query)"
      "0 < fst (scoreDocument doc c)"
    then show "P (fst (scoreDocument doc c), docID, doc)" by (rule direct)
  qed simp_all
  then have "cand_wf ?c" "list_all P (cands ?c)" by (simp_all add: cands_inv_def)
  from sortCandidates_all [OF this] False show ?thesis
    by (simp add: searchCandidates_def Let_def)
qed


text \<open>What the materializers return, as candidates.\<close>

definition resultCand :: "SearchResult \<Rightarrow> cand" where
  "resultCand r = (Score r, ID r, Text r)"

lemma results_take:
  assumes "cand_wf ctx" "n \<le> candidateCount ctx"
  shows "map resultCand (map (resultAt ctx) [0..<n]) = take n (cands ctx)"
proof (rule nth_equalityI)
  show "length (map resultCand (map (resultAt ctx) [0..<n])) = length (take n (cands ctx))"
    using assms by simp
next
  fix i
  assume "i < length (map resultCand (map (resultAt ctx) [0..<n]))"
  then have i: "i < n" by simp
  with assms have "i < candidateCount ctx" by simp
  from cands_nth [OF assms(1) this] i
  show "map resultCand (map (resultAt ctx) [0..<n]) ! i = take n (cands ctx) ! i"
    by (simp add: resultCand_def resultAt_def)
qed

lemma convertToResultsOneAlloc_spec:
  "convertToResultsOneAlloc ctx maxResults =
    (if maxResults < 0 then Inl MakeSliceLenOutOfRange
     else Inr (map (resultAt ctx) [0..<min (candidateCount ctx) (nat maxResults)]))"
proof -
  have "nat (min (int (candidateCount ctx)) maxResults) = min (candidateCount ctx) (nat maxResults)"
    by linarith
  then show ?thesis
    by (auto simp add: convertToResultsOneAlloc_def Let_def min_def)
qed

lemma convertToResultsZeroAlloc_loop_spec:
  "k \<le> n \<Longrightarrow> n \<le> length buf \<Longrightarrow>
   convertToResultsZeroAlloc_loop ctx [k..<n] buf =
     Inr (take k buf @ map (resultAt ctx) [k..<n] @ drop n buf)"
proof (induction "n - k" arbitrary: k buf)
  case 0
  then show ?case by simp
next
  case (Suc d)
  then have k: "k < n" "k < length buf" by simp_all
  have u: "[k..<n] = k # [Suc k..<n]" using k by (simp add: upt_conv_Cons)
  have "convertToResultsZeroAlloc_loop ctx [Suc k..<n] (buf[k := resultAt ctx k]) =
      Inr (take (Suc k) (buf[k := resultAt ctx k]) @ map (resultAt ctx) [Suc k..<n]
           @ drop n (buf[k := resultAt ctx k]))"
    using Suc.hyps(2) Suc.prems k by (intro Suc.hyps(1)) simp_all
  moreover have "take (Suc k) (buf[k := resultAt ctx k]) = take k buf @ [resultAt ctx k]"
    using k by (simp add: take_Suc_conv_app_nth)
  moreover have "drop n (buf[k := resultAt ctx k]) = drop n buf"
    using k by simp
  ultimately show ?case
    using k by (simp add: u)
qed

lemma convertToResultsZeroAlloc_spec:
  "convertToResultsZeroAlloc ctx maxResults buf =
    (if maxResults < 0 then Inl SliceBoundsOutOfRange
     else let n = min (min (candidateCount ctx) (nat maxResults)) (length buf) in
       Inr (map (resultAt ctx) [0..<n], map (resultAt ctx) [0..<n] @ drop n buf))"
proof (cases "maxResults < 0")
  case True
  then have "min (int (candidateCount ctx)) maxResults = maxResults" by simp
  with True show ?thesis
    by (simp add: convertToResultsZeroAlloc_def Let_def)
next
  case False
  define n where "n = min (min (candidateCount ctx) (nat maxResults)) (length buf)"
  define limit where "limit =
     (if min (int (candidateCount ctx)) maxResults > int (length buf) then int (length buf)
      else min (int (candidateCount ctx)) maxResults)"
  have l: "limit = int n" using False by (auto simp add: limit_def n_def min_def)
  have n: "n \<le> length buf" by (simp add: n_def)
  have "convertToResultsZeroAlloc ctx maxResults buf =
      (if limit = 0 then Inr ([], buf)
       else case convertToResultsZeroAlloc_loop ctx [0..<nat limit] buf of
           Inl f \<Rightarrow> Inl f
         | Inr resultBuffer \<Rightarrow>
             if limit < 0 then Inl SliceBoundsOutOfRange
             else Inr (take (nat limit) resultBuffer, resultBuffer))"
    by (simp only: convertToResultsZeroAlloc_def limit_def Let_def)
  also have "\<dots> = Inr (map (resultAt ctx) [0..<n], map (resultAt ctx) [0..<n] @ drop n buf)"
    using convertToResultsZeroAlloc_loop_spec [of 0 n buf ctx] n by (simp add: l)
  finally show ?thesis
    using False by (simp add: n_def Let_def)
qed

lemma performSearchOneAlloc_results:
  assumes "0 \<le> maxResults"
  shows "\<exists>res. fst (performSearchOneAlloc rs data query maxResults useCache) = Inr res
     \<and> map resultCand res =
         take (nat maxResults) (cands (snd (searchCandidates rs data query useCache)))"
proof -
  let ?ctx = "snd (searchCandidates rs data query useCache)"
  have wf: "cand_wf ?ctx"
    using searchCandidates_all [of data query "\<lambda>c. True" rs useCache] by simp
  have "take (min (candidateCount ?ctx) (nat maxResults)) (cands ?ctx) =
      take (nat maxResults) (cands ?ctx)"
    using wf by (simp add: min_def)
  with results_take [OF wf, of "min (candidateCount ?ctx) (nat maxResults)"] assms
  show ?thesis
    by (simp add: performSearchOneAlloc_def convertToResultsOneAlloc_spec split_beta)
qed

lemma performSearchZeroAlloc_results:
  assumes "0 \<le> maxResults"
  shows "\<exists>view. fst (performSearchZeroAlloc rs data query maxResults useCache buf) =
        Inr (view, view @ drop (length view) buf)
     \<and> length view \<le> min (nat maxResults) (length buf)
     \<and> map resultCand view =
         take (min (nat maxResults) (length buf))
           (cands (snd (searchCandidates rs data query useCache)))"
proof -
  let ?ctx = "snd (searchCandidates rs data query useCache)"
  let ?n = "min (min (candidateCount ?ctx) (nat maxResults)) (length buf)"
  have wf: "cand_wf ?ctx"
    using searchCandidates_all [of data query "\<lambda>c. True" rs useCache] by simp
  have "take ?n (cands ?ctx) = take (min (nat maxResults) (length buf)) (cands ?ctx)"
    using wf by (simp add: min_def)
  with results_take [OF wf, of ?n] assms
  show ?thesis
    by (simp add: performSearchZeroAlloc_def convertToResultsZeroAlloc_spec split_beta Let_def)
qed

lemma results_all:
  assumes "map resultCand res = take n cs" "list_all P cs"
  shows "list_all (\<lambda>r. P (resultCand r)) res"
proof -
  have "list_all P (take n cs)"
    using assms(2) by (auto simp add: list_all_iff dest: in_set_takeD)
  then have "list_all P (map resultCand res)" by (simp add: assms(1))
  then show ?thesis by (simp add: list_all_iff)
qed

section \<open>Claims about the scores of the results\<close>

lemma searchCandidates_positive:
  "list_all (\<lambda>c. 0 < fst c) (cands (snd (searchCandidates rs data query useCache)))"
  using searchCandidates_all [of data query "\<lambda>c. 0 < fst c" rs useCache] by simp

lemma performSearchOneAlloc_positive:
  assumes "0 \<le> maxResults"
  shows "\<exists>res. fst (performSearchOneAlloc rs data query maxResults useCache) = Inr res
     \<and> list_all (\<lambda>r. 0 < Score r) res"
proof -
  from performSearchOneAlloc_results [OF assms] obtain res where
    r: "fst (performSearchOneAlloc rs data query maxResults useCache) = Inr res"
    and m: "map resultCand res =
         take (nat maxResults) (cands (snd (searchCandidates rs data query useCache)))"
    by blast
  from results_all [OF m searchCandidates_positive] r show ?thesis
    by (auto simp add: resultCand_def)
qed

lemma performSearchZeroAlloc_positive:
  assumes "0 \<le> maxResults"
  shows "\<exists>view buf'. fst (performSearchZeroAlloc rs data query maxResults useCache buf) =
        Inr (view, buf') \<and> list_all (\<lambda>r. 0 < Score r) view"
proof -
  from performSearchZeroAlloc_results [OF assms] obtain view where
    r: "fst (performSearchZeroAlloc rs data query maxResults useCache buf) =
        Inr (view, view @ drop (length view) buf)"
    and m: "map resultCand view =
         take (min (nat maxResults) (length buf))
           (cands (snd (searchCandidates rs data query useCache)))"
    by blast
  from results_all [OF m searchCandidates_positive] r show ?thesis
    by (auto simp add: resultCand_def)
qed

text \<open>
  Claim C10: every result that an entry point returns has a strictly positive score.
  \<^verbatim>\<open>searchDirect\<close> and \<^verbatim>\<open>scoreCandidates\<close> store a candidate only under \<^verbatim>\<open>score > 0\<close>, the
  sort permutes the candidates, and the materializers copy a prefix of them. The four
  entry points \<^verbatim>\<open>Search\<close>, \<^verbatim>\<open>QuickSearch\<close>, \<^verbatim>\<open>SearchInto\<close> and \<^verbatim>\<open>QuickSearchInto\<close> return
  without a fault, whatever the state of the cache, the corpus, the query, the cap and the
  buffer are, and every result (for the two \<^verbatim>\<open>Into\<close> forms: every entry of the returned
  view) has a score above 0. Scores are reals here; the code computes them in
  \<^verbatim>\<open>float32\<close>.
\<close>

theorem results_score_positive:
  "(\<exists>res. fst (Search rs data query maxResults) = Inr res \<and> list_all (\<lambda>r. 0 < Score r) res)
 \<and> (\<exists>res. QuickSearch rs data query maxResults = Inr res \<and> list_all (\<lambda>r. 0 < Score r) res)
 \<and> (\<exists>view buf'. fst (SearchInto rs data query resultBuffer) = Inr (view, buf')
       \<and> list_all (\<lambda>r. 0 < Score r) view)
 \<and> (\<exists>view buf'. QuickSearchInto rs data query resultBuffer = Inr (view, buf')
       \<and> list_all (\<lambda>r. 0 < Score r) view)"
proof (intro conjI)
  show "\<exists>res. fst (Search rs data query maxResults) = Inr res \<and> list_all (\<lambda>r. 0 < Score r) res"
    using performSearchOneAlloc_positive [of maxResults rs data query]
    by (simp add: Search_def)
  show "\<exists>res. QuickSearch rs data query maxResults = Inr res \<and> list_all (\<lambda>r. 0 < Score r) res"
    using performSearchOneAlloc_positive [of maxResults rs data query False]
    by (simp add: QuickSearch_def)
  show "\<exists>view buf'. fst (SearchInto rs data query resultBuffer) = Inr (view, buf')
       \<and> list_all (\<lambda>r. 0 < Score r) view"
    using performSearchZeroAlloc_positive [of "int (length resultBuffer)" rs data query]
    by (simp add: SearchInto_def Let_def)
  show "\<exists>view buf'. QuickSearchInto rs data query resultBuffer = Inr (view, buf')
       \<and> list_all (\<lambda>r. 0 < Score r) view"
    using performSearchZeroAlloc_positive [of "int (length resultBuffer)" rs data query False]
    by (simp add: QuickSearchInto_def Let_def)
qed

section \<open>Claims about the materializer into a caller's buffer\<close>

text \<open>
  Claim C6: the search into a caller's buffer of \<open>K\<close> entries returns at most
  \<open>min K maxResults\<close> entries and writes at no index from \<open>K\<close> on. A write at such an index
  is the fault \<open>IndexOutOfRange\<close> of the copy loop. \<^verbatim>\<open>SearchInto\<close> and \<^verbatim>\<open>QuickSearchInto\<close>,
  whose cap is the length of the buffer, always return a view and leave a buffer of the
  same length, of which the view is the front, and whose entries behind the view are the
  ones the caller passed. \<^verbatim>\<open>performSearchZeroAlloc\<close> does the same for every cap from 0 on,
  with at most \<open>min K maxResults\<close> entries in the view; for a negative cap it copies
  nothing and the final \<^verbatim>\<open>resultBuffer[:limit]\<close> is out of range.
\<close>

theorem zeroAlloc_bounds:
  "(\<exists>view buf'. fst (SearchInto rs data query resultBuffer) = Inr (view, buf')
       \<and> length view \<le> length resultBuffer \<and> length buf' = length resultBuffer
       \<and> view = take (length view) buf'
       \<and> drop (length view) buf' = drop (length view) resultBuffer)
 \<and> (\<exists>view buf'. QuickSearchInto rs data query resultBuffer = Inr (view, buf')
       \<and> length view \<le> length resultBuffer \<and> length buf' = length resultBuffer
       \<and> view = take (length view) buf'
       \<and> drop (length view) buf' = drop (length view) resultBuffer)
 \<and> (maxResults < 0
       \<and> fst (performSearchZeroAlloc rs data query maxResults useCache resultBuffer) =
           Inl SliceBoundsOutOfRange
     \<or> 0 \<le> maxResults
       \<and> (\<exists>view buf'.
            fst (performSearchZeroAlloc rs data query maxResults useCache resultBuffer) =
              Inr (view, buf')
            \<and> int (length view) \<le> min (int (length resultBuffer)) maxResults
            \<and> length buf' = length resultBuffer
            \<and> view = take (length view) buf'
            \<and> drop (length view) buf' = drop (length view) resultBuffer))"
proof -
  have z: "\<exists>view buf'.
       fst (performSearchZeroAlloc rs data query m c resultBuffer) = Inr (view, buf')
       \<and> int (length view) \<le> min (int (length resultBuffer)) m
       \<and> length buf' = length resultBuffer
       \<and> view = take (length view) buf'
       \<and> drop (length view) buf' = drop (length view) resultBuffer" if "0 \<le> m" for m c
  proof -
    from performSearchZeroAlloc_results [OF that, of rs data query c resultBuffer]
    obtain view where
      r: "fst (performSearchZeroAlloc rs data query m c resultBuffer) =
          Inr (view, view @ drop (length view) resultBuffer)"
      and l: "length view \<le> min (nat m) (length resultBuffer)"
      by blast
    from l that have "int (length view) \<le> min (int (length resultBuffer)) m" by linarith
    with r l show ?thesis by simp
  qed
  have n: "fst (performSearchZeroAlloc rs data query maxResults useCache resultBuffer) =
      Inl SliceBoundsOutOfRange" if "maxResults < 0"
    using that
    by (simp add: performSearchZeroAlloc_def convertToResultsZeroAlloc_spec split_beta)
  have s: "\<exists>view buf'. fst (SearchInto rs data query resultBuffer) = Inr (view, buf')
       \<and> length view \<le> length resultBuffer \<and> length buf' = length resultBuffer
       \<and> view = take (length view) buf'
       \<and> drop (length view) buf' = drop (length view) resultBuffer"
    using z [of "int (length resultBuffer)"]
    by (auto simp add: SearchInto_def Let_def)
  have q: "\<exists>view buf'. QuickSearchInto rs data query resultBuffer = Inr (view, buf')
       \<and> length view \<le> length resultBuffer \<and> length buf' = length resultBuffer
       \<and> view = take (length view) buf'
       \<and> drop (length view) buf' = drop (length view) resultBuffer"
    using z [of "int (length resultBuffer)" False]
    by (auto simp add: QuickSearchInto_def Let_def)
  from z [of maxResults useCache] n have
    "maxResults < 0
       \<and> fst (performSearchZeroAlloc rs data query maxResults useCache resultBuffer) =
           Inl SliceBoundsOutOfRange
     \<or> 0 \<le> maxResults
       \<and> (\<exists>view buf'.
            fst (performSearchZeroAlloc rs data query maxResults useCache resultBuffer) =
              Inr (view, buf')
            \<and> int (length view) \<le> min (int (length resultBuffer)) maxResults
            \<and> length buf' = length resultBuffer
            \<and> view = take (length view) buf'
            \<and> drop (length view) buf' = drop (length view) resultBuffer)"
    by (cases "maxResults < 0") simp_all
  with s q show ?thesis by blast
qed

section \<open>Claims about the index store\<close>


text \<open>
  The posting list of a word, empty when the word is no key of the map, and the words
  under which the word loop of \<^verbatim>\<open>buildIndex\<close> indexes a document: those of the spans of
  its normalized text that pass \<^verbatim>\<open>start < end && end <= rs.indexBufferLen\<close>, in order.
\<close>

definition postings :: "RuntimeSearch \<Rightarrow> gostring \<Rightarrow> gostring list" where
  "postings rs word = (case map_of (cachedWordMap rs) word of None \<Rightarrow> [] | Some docIDs \<Rightarrow> docIDs)"

definition indexedWords :: "gostring \<Rightarrow> gostring list" where
  "indexedWords text =
    (let buf = normalizeText text indexBuffer_len in
     case splitWords buf 256 256 of
       (wordStarts, wordEnds) \<Rightarrow>
         map (\<lambda>i. subslice buf (wordStarts ! i) (wordEnds ! i))
           (filter (\<lambda>i. wordStarts ! i < wordEnds ! i \<and> wordEnds ! i \<le> length buf)
              [0..<length wordStarts]))"

lemma map_of_appendPosting:
  "map_of (appendPosting k docID m) w =
    (if w = k then Some ((case map_of m k of None \<Rightarrow> [] | Some docIDs \<Rightarrow> docIDs) @ [docID])
     else map_of m w)"
  by (simp add: appendPosting_def update_conv' split: option.splits)

lemma postings_appendPosting:
  "postings (rs\<lparr>cachedWordMap := appendPosting k docID (cachedWordMap rs)\<rparr>) w =
    (if w = k then postings rs w @ [docID] else postings rs w)"
  by (simp add: postings_def map_of_appendPosting)

lemma buildIndex_words_count:
  "indexBuffer (fold (\<lambda>i rs.
        if wordStarts ! i < wordEnds ! i \<and> wordEnds ! i \<le> indexBufferLen rs then
          rs\<lparr>cachedWordMap :=
               appendPosting (subslice (indexBuffer rs) (wordStarts ! i) (wordEnds ! i)) docID
                 (cachedWordMap rs)\<rparr>
        else rs) is rs) = indexBuffer rs
   \<and> count_list (postings (fold (\<lambda>i rs.
        if wordStarts ! i < wordEnds ! i \<and> wordEnds ! i \<le> indexBufferLen rs then
          rs\<lparr>cachedWordMap :=
               appendPosting (subslice (indexBuffer rs) (wordStarts ! i) (wordEnds ! i)) docID
                 (cachedWordMap rs)\<rparr>
        else rs) is rs) w) d =
     count_list (postings rs w) d +
     (if d = docID then
        count_list (map (\<lambda>i. subslice (indexBuffer rs) (wordStarts ! i) (wordEnds ! i))
           (filter (\<lambda>i. wordStarts ! i < wordEnds ! i \<and> wordEnds ! i \<le> indexBufferLen rs) is)) w
      else 0)"
proof (induction "is" arbitrary: rs)
  case Nil
  then show ?case by simp
next
  case (Cons i "is")
  show ?case
    by (simp add: Cons.IH postings_appendPosting)
qed

lemma buildIndex_trigrams_cachedWordMap [simp]:
  "cachedWordMap (buildIndex_trigrams docID i rs) = cachedWordMap rs"
proof (induction docID i rs rule: buildIndex_trigrams.induct)
  case (1 docID i rs)
  then show ?case
    by (subst buildIndex_trigrams.simps) (simp add: Let_def)
qed

lemma postings_cong: "cachedWordMap a = cachedWordMap b \<Longrightarrow> postings a w = postings b w"
  by (simp add: postings_def)

lemma buildIndex_doc_count:
  "count_list (postings (buildIndex_doc (docID, doc) rs) w) d =
     count_list (postings rs w) d + (if d = docID then count_list (indexedWords doc) w else 0)"
proof -
  define rs1 where "rs1 = rs\<lparr>cachedData := map_option (AList.update docID doc) (cachedData rs),
     indexBuffer := normalizeText doc indexBuffer_len\<rparr>"
  obtain ws we where sp: "splitWords (normalizeText doc indexBuffer_len) 256 256 = (ws, we)"
    by (cases "splitWords (normalizeText doc indexBuffer_len) 256 256")
  define rs2 where "rs2 = fold (\<lambda>i rs.
        let start = ws ! i; endi = we ! i in
        if start < endi \<and> endi \<le> indexBufferLen rs then
          rs\<lparr>cachedWordMap :=
               appendPosting (subslice (indexBuffer rs) start endi) docID (cachedWordMap rs)\<rparr>
        else rs) [0..<length ws] rs1"
  have p: "postings rs1 w = postings rs w" by (simp add: postings_def rs1_def)
  have b: "indexBuffer rs1 = normalizeText doc indexBuffer_len" by (simp add: rs1_def)
  have "buildIndex_doc (docID, doc) rs =
      (if indexBufferLen rs2 \<ge> 3 then buildIndex_trigrams docID 0 rs2 else rs2)"
    unfolding rs2_def rs1_def by (simp add: buildIndex_doc_def sp Let_def)
  then have "postings (buildIndex_doc (docID, doc) rs) w = postings rs2 w"
    by (simp add: postings_def)
  moreover have "count_list (postings rs2 w) d =
     count_list (postings rs1 w) d + (if d = docID then count_list (indexedWords doc) w else 0)"
    unfolding rs2_def Let_def
    by (simp add: buildIndex_words_count [THEN conjunct2] b indexedWords_def sp Let_def)
  ultimately show ?thesis by (simp add: p)
qed

lemma buildIndex_fold_count:
  "count_list (postings (fold buildIndex_doc data rs) w) d =
     count_list (postings rs w) d +
     (\<Sum>(docID, text) \<leftarrow> data. if docID = d then count_list (indexedWords text) w else 0)"
proof (induction data arbitrary: rs)
  case Nil
  then show ?case by simp
next
  case (Cons a data)
  obtain docID doc where a: "a = (docID, doc)" by (cases a)
  show ?case
    by (simp add: Cons.IH a buildIndex_doc_count)
qed

lemma sum_one_key:
  "distinct (map fst data) \<Longrightarrow> (d, text) \<in> set data \<Longrightarrow>
   (\<Sum>(docID, text) \<leftarrow> data. if docID = d then f text else 0) = (f text :: nat)"
proof (induction data)
  case Nil
  then show ?case by simp
next
  case (Cons a data)
  obtain k v where a: "a = (k, v)" by (cases a)
  have z: "(\<Sum>(docID, text) \<leftarrow> data. if docID = d then f text else 0) = 0" if "d \<notin> fst ` set data"
    using that by (induction data) (auto split: prod.splits)
  show ?case
  proof (cases "(d, text) = a")
    case True
    with Cons.prems a z show ?thesis by simp
  next
    case False
    with Cons.prems a have "(d, text) \<in> set data" "k \<noteq> d"
      by (auto simp add: rev_image_eqI)
    with Cons show ?thesis by (simp add: a)
  qed
qed

lemmas index_eval = B_def normalizeText_def normalizeText_loop.simps lowerASCII_def
  splitWords_def splitWords_loop.simps wordBoundaryLUT_def indexBuffer_len_def subslice_def
  Let_def upt_conv_Cons

text \<open>
  Claim C3, as stated: after one rebuild each identifier is at most once in the posting
  list of a word, also when the word is twice in the document. \<^verbatim>\<open>buildIndex\<close> appends the
  identifier for every word span and looks for no earlier entry: the document \<open>d\<close> with
  the text \<open>a a\<close> is twice in the posting list of \<open>a\<close>.
\<close>

theorem buildIndex_duplicate_posting_counterexample:
  "postings (buildIndex NewRuntimeSearch [(B ''d'', B ''a a'')]) (B ''a'') = [B ''d'', B ''d'']
   \<and> \<not> distinct (postings (buildIndex NewRuntimeSearch [(B ''d'', B ''a a'')]) (B ''a''))"
  by (simp add: index_eval postings_def buildIndex_def buildIndex_doc_def NewRuntimeSearch_def
      appendPosting_def buildIndex_trigrams.simps)

text \<open>
  Claim C3, amended: after one rebuild from a corpus (a Go map: no identifier is a key
  twice), the identifier of a document is in the posting list of a word once for every
  indexed span of the document's normalized text that is this word; so it is there once
  when the word occurs once, several times when it occurs several times, and not at all
  when the document has no such word.
\<close>

theorem buildIndex_posting_count:
  assumes "distinct (map fst data)" "(docID, text) \<in> set data"
  shows "count_list (postings (buildIndex rs data) word) docID =
         count_list (indexedWords text) word"
proof -
  have "postings (rs\<lparr>cachedData := Some [], cachedWordMap := [], cachedTrigrams := []\<rparr>) word = []"
    by (simp add: postings_def)
  then show ?thesis
    using sum_one_key [OF assms, of "\<lambda>text. count_list (indexedWords text) word"]
    by (simp add: buildIndex_def buildIndex_fold_count)
qed


theorem buildIndex_posting_count_witness:
  "distinct (map fst [(B ''d'', B ''a a'')])
   \<and> (B ''d'', B ''a a'') \<in> set [(B ''d'', B ''a a'')]
   \<and> count_list (postings (buildIndex NewRuntimeSearch [(B ''d'', B ''a a'')]) (B ''a''))
         (B ''d'') = count_list (indexedWords (B ''a a'')) (B ''a'')
   \<and> count_list (indexedWords (B ''a a'')) (B ''a'') = 2"
  using buildIndex_posting_count [of "[(B ''d'', B ''a a'')]" "B ''d''" "B ''a a''"
      NewRuntimeSearch "B ''a''"]
  by (simp add: index_eval indexedWords_def)

section \<open>Claims about the scorer\<close>


text \<open>The word spans that \<^verbatim>\<open>splitWords\<close> returns are non-empty and lie in the text.\<close>

definition spans_ok :: "byte list \<Rightarrow> nat list \<Rightarrow> nat list \<Rightarrow> bool" where
  "spans_ok t starts ends \<longleftrightarrow>
     length starts = length ends
     \<and> list_all (\<lambda>j. starts ! j < ends ! j \<and> ends ! j \<le> length t) [0..<length starts]"

lemma spans_ok_snoc:
  "spans_ok t starts ends \<Longrightarrow> s < e \<Longrightarrow> e \<le> length t \<Longrightarrow> spans_ok t (starts @ [s]) (ends @ [e])"
  by (auto simp add: spans_ok_def list_all_iff nth_append)

lemma splitWords_loop_spans:
  "spans_ok t starts ends \<Longrightarrow> splitWords_loop t m i start starts ends = (start', starts', ends') \<Longrightarrow>
   spans_ok t starts' ends'"
proof (induction t m i start starts ends rule: splitWords_loop.induct)
  case (1 t m i start starts ends)
  show ?case
  proof (cases "i < length t \<and> length starts < m")
    case False
    then have "splitWords_loop t m i start starts ends = (start, starts, ends)"
      by (subst splitWords_loop.simps) auto
    with "1.prems" show ?thesis by simp
  next
    case True
    note c = True
    show ?thesis
    proof (cases "wordBoundaryLUT (t ! i)")
      case False
      with c have "splitWords_loop t m i start starts ends =
          splitWords_loop t m (i + 1) start starts ends"
        by (subst splitWords_loop.simps) auto
      with "1.prems" "1.IH"(3) [OF c False] show ?thesis by simp
    next
      case True
      note b = True
      show ?thesis
      proof (cases "i > start")
        case True
        have ok: "spans_ok t (starts @ [start]) (ends @ [i])"
          using "1.prems"(1) True c by (intro spans_ok_snoc) simp_all
        from c b True have "splitWords_loop t m i start starts ends =
            splitWords_loop t m (i + 1) (i + 1) (starts @ [start]) (ends @ [i])"
          by (subst splitWords_loop.simps) auto
        with "1.prems" "1.IH"(1) [OF c b True ok] show ?thesis by simp
      next
        case False
        with c b have "splitWords_loop t m i start starts ends =
            splitWords_loop t m (i + 1) (i + 1) starts ends"
          by (subst splitWords_loop.simps) auto
        with "1.prems" "1.IH"(2) [OF c b False] show ?thesis by simp
      qed
    qed
  qed
qed

lemma splitWords_spans:
  assumes "splitWords t m n = (starts, ends)"
  shows "spans_ok t starts ends"
proof -
  define mw where "mw = (if n < m then n else m)"
  obtain start ss es where l: "splitWords_loop t mw 0 0 [] [] = (start, ss, es)"
    by (cases "splitWords_loop t mw 0 0 [] []")
  have "spans_ok t [] []" by (simp add: spans_ok_def)
  from splitWords_loop_spans [OF this l] have ok: "spans_ok t ss es" .
  show ?thesis
  proof (cases "start < length t \<and> length ss < mw")
    case True
    with assms l have "starts = ss @ [start]" "ends = es @ [length t]"
      by (simp_all add: splitWords_def mw_def [symmetric] Let_def)
    with ok True show ?thesis by (simp add: spans_ok_snoc)
  next
    case False
    with assms l have "starts = ss" "ends = es"
      by (auto simp add: splitWords_def mw_def [symmetric] Let_def)
    with ok show ?thesis by simp
  qed
qed


text \<open>
  The words of a text as \<^verbatim>\<open>normalizeText\<close> and \<^verbatim>\<open>splitWords\<close> give them, for a buffer of
  \<open>cap\<close> bytes and span arrays of \<open>maxWords\<close> entries; the words of a query and of a
  document are these words for the sizes of the query and of the document arrays.
\<close>

definition textWords :: "gostring \<Rightarrow> nat \<Rightarrow> nat \<Rightarrow> gostring list" where
  "textWords t cap maxWords =
    (let buf = normalizeText t cap in
     case splitWords buf maxWords maxWords of
       (starts, ends) \<Rightarrow> map (\<lambda>j. subslice buf (starts ! j) (ends ! j)) [0..<length starts])"

definition queryWords :: "gostring \<Rightarrow> gostring list" where
  "queryWords query = textWords query queryNormalized_len queryWords_len"

definition docWords :: "gostring \<Rightarrow> gostring list" where
  "docWords doc = textWords doc docNormalized_len docWords_len"

lemma memEqual_refl: "memEqual a a n"
  by (simp add: memEqual_def list_ex_iff Let_def)

lemma length_subslice: "b \<le> length xs \<Longrightarrow> length (subslice xs a b) = b - a"
  by (simp add: subslice_def)

lemma set_subslice: "set (subslice xs a b) \<subseteq> set xs"
  unfolding subslice_def by (meson set_take_subset set_drop_subset subset_trans)

lemma scoreDocument_docWord_exact:
  assumes "qe \<le> queryNormLen ctx" "docWordEnds ctx ! j \<le> docNormLen ctx"
    and "subslice (queryNormalized ctx) qs qe =
         subslice (docNormalized ctx) (docWordStarts ctx ! j) (docWordEnds ctx ! j)"
  shows "scoreDocument_docWord ctx qs qe j best = (2, True)"
proof -
  have "qe - qs = docWordEnds ctx ! j - docWordStarts ctx ! j"
    using arg_cong [OF assms(3), of length] assms(1,2) by (simp add: length_subslice)
  then show ?thesis
    by (simp add: scoreDocument_docWord_def Let_def assms(3) memEqual_refl)
qed

lemma scoreDocument_docWord_True:
  "scoreDocument_docWord ctx qs qe j best = (v, True) \<Longrightarrow> v = 2"
  by (simp add: scoreDocument_docWord_def Let_def split: if_splits)

lemma scoreDocument_docWords_exact:
  assumes "qe \<le> queryNormLen ctx"
  shows "\<exists>j \<in> set js. docWordEnds ctx ! j \<le> docNormLen ctx
        \<and> subslice (queryNormalized ctx) qs qe =
         subslice (docNormalized ctx) (docWordStarts ctx ! j) (docWordEnds ctx ! j) \<Longrightarrow>
     scoreDocument_docWords ctx qs qe js best = (2, True)"
proof (induction js arbitrary: best)
  case Nil
  then show ?case by simp
next
  case (Cons j js)
  obtain v e where r: "scoreDocument_docWord ctx qs qe j best = (v, e)"
    by (cases "scoreDocument_docWord ctx qs qe j best")
  show ?case
  proof (cases e)
    case True
    with r scoreDocument_docWord_True [of ctx qs qe j best v] show ?thesis by simp
  next
    case False
    with r scoreDocument_docWord_exact [OF assms, of j qs best] Cons.prems
    have "\<exists>j \<in> set js. docWordEnds ctx ! j \<le> docNormLen ctx
        \<and> subslice (queryNormalized ctx) qs qe =
         subslice (docNormalized ctx) (docWordStarts ctx ! j) (docWordEnds ctx ! j)"
      by auto
    from Cons.IH [OF this] r False show ?thesis by simp
  qed
qed

lemma scoreDocument_queryWords_exact:
  "\<forall>i \<in> set is. scoreDocument_docWords ctx (queryWordStarts ctx ! i) (queryWordEnds ctx ! i)
       [0..<docWordCount ctx] 0 = (2, True) \<Longrightarrow>
   scoreDocument_queryWords ctx is totalScore exactMatches =
     (totalScore + 2 * real (length is), exactMatches + length is)"
  by (induction "is" arbitrary: totalScore exactMatches) (simp_all add: algebra_simps)

lemma queryBytes_fold:
  "fold (\<lambda>b t. t(b := True)) query f b \<longleftrightarrow> b \<in> set query \<or> f b"
  by (induction query arbitrary: f) auto

lemma containsAnyQueryBytes_iff:
  "containsAnyQueryBytes doc query \<longleftrightarrow> set doc \<inter> set query \<noteq> {}"
  by (auto simp add: containsAnyQueryBytes_def Let_def list_ex_iff queryBytes_fold)

lemma normalizeText_Nil [simp]: "normalizeText [] cap = []"
  by (simp add: normalizeText_def normalizeText_loop.simps)

lemma splitWords_Nil [simp]: "splitWords [] m n = ([], [])"
  by (simp add: splitWords_def splitWords_loop.simps)

lemma docWords_Nil [simp]: "docWords [] = []"
  by (simp add: docWords_def textWords_def)

lemma prepareQuery_words:
  "map (\<lambda>i. subslice (queryNormalized (prepareQuery query))
          (queryWordStarts (prepareQuery query) ! i) (queryWordEnds (prepareQuery query) ! i))
     [0..<queryWordCount (prepareQuery query)] = queryWords query"
  by (simp add: prepareQuery_def queryWords_def textWords_def Let_def split: prod.splits)

lemma prepareQuery_spans:
  "spans_ok (queryNormalized (prepareQuery query)) (queryWordStarts (prepareQuery query))
     (queryWordEnds (prepareQuery query))"
proof -
  obtain s e where sp: "splitWords (normalizeText query queryNormalized_len) queryWords_len
      queryWords_len = (s, e)"
    by (cases "splitWords (normalizeText query queryNormalized_len) queryWords_len queryWords_len")
  from splitWords_spans [OF sp] show ?thesis
    by (simp add: prepareQuery_def Let_def sp)
qed


lemma scoreDocument_all_exact_ctx:
  assumes q: "spans_ok (queryNormalized ctx) (queryWordStarts ctx) (queryWordEnds ctx)"
    and w: "0 < queryWordCount ctx"
    and m: "\<And>i. i < queryWordCount ctx \<Longrightarrow>
         subslice (queryNormalized ctx) (queryWordStarts ctx ! i) (queryWordEnds ctx ! i)
           \<in> set (docWords doc)"
  shows "fst (scoreDocument doc ctx) =
     2 * real (queryWordCount ctx) + 0.5 * (real (queryWordCount ctx) - 1)"
proof -
  define dn where "dn = normalizeText doc docNormalized_len"
  obtain ds de where sp: "splitWords dn docWords_len docWords_len = (ds, de)"
    by (cases "splitWords dn docWords_len docWords_len")
  define ctx1 where "ctx1 = ctx\<lparr>docNormalized := dn\<rparr>"
  define ctx2 where "ctx2 = ctx1\<lparr>docWordStarts := ds, docWordEnds := de\<rparr>"
  have dw: "docWords doc = map (\<lambda>j. subslice dn (ds ! j) (de ! j)) [0..<length ds]"
    by (simp add: docWords_def textWords_def dn_def [symmetric] sp)
  from splitWords_spans [OF sp] have d: "spans_ok dn ds de" .
  have ne: "doc \<noteq> []"
    using m [OF w] by auto
  have qi: "queryWordStarts ctx ! i < queryWordEnds ctx ! i
      \<and> queryWordEnds ctx ! i \<le> queryNormLen ctx" if "i < queryWordCount ctx" for i
    using q that by (simp add: spans_ok_def list_all_iff)
  have dj: "de ! j \<le> length dn" if "j < length ds" for j
    using d that by (simp add: spans_ok_def list_all_iff)
  have ex: "\<exists>j < length ds.
      subslice (queryNormalized ctx) (queryWordStarts ctx ! i) (queryWordEnds ctx ! i) =
      subslice dn (ds ! j) (de ! j)" if "i < queryWordCount ctx" for i
    using m [OF that] by (auto simp add: dw)
  have each: "scoreDocument_docWords ctx2 (queryWordStarts ctx2 ! i) (queryWordEnds ctx2 ! i)
       [0..<docWordCount ctx2] 0 = (2, True)" if "i < queryWordCount ctx" for i
  proof -
    from ex [OF that] obtain j where j: "j < length ds"
      "subslice (queryNormalized ctx) (queryWordStarts ctx ! i) (queryWordEnds ctx ! i) =
       subslice dn (ds ! j) (de ! j)"
      by blast
    have "scoreDocument_docWords ctx2 (queryWordStarts ctx ! i) (queryWordEnds ctx ! i)
       [0..<length ds] 0 = (2, True)"
    proof (rule scoreDocument_docWords_exact)
      show "queryWordEnds ctx ! i \<le> queryNormLen ctx2"
        using qi [OF that] by (simp add: ctx2_def ctx1_def)
      show "\<exists>j \<in> set [0..<length ds]. docWordEnds ctx2 ! j \<le> docNormLen ctx2
        \<and> subslice (queryNormalized ctx2) (queryWordStarts ctx ! i) (queryWordEnds ctx ! i) =
         subslice (docNormalized ctx2) (docWordStarts ctx2 ! j) (docWordEnds ctx2 ! j)"
        using j dj [OF j(1)] by (auto simp add: ctx2_def ctx1_def)
    qed
    then show ?thesis by (simp add: ctx2_def ctx1_def)
  qed
  have loop: "scoreDocument_queryWords ctx2 [0..<queryWordCount ctx] 0 0 =
      (2 * real (queryWordCount ctx), queryWordCount ctx)"
    using scoreDocument_queryWords_exact [of "[0..<queryWordCount ctx]" ctx2 0 0] each
    by simp
  have bytes: "containsAnyQueryBytes dn (queryNormalized ctx)"
  proof -
    from ex [OF w] obtain j where j: "j < length ds"
      "subslice (queryNormalized ctx) (queryWordStarts ctx ! 0) (queryWordEnds ctx ! 0) =
       subslice dn (ds ! j) (de ! j)"
      by blast
    have "length (subslice (queryNormalized ctx) (queryWordStarts ctx ! 0)
        (queryWordEnds ctx ! 0)) > 0"
      using qi [OF w] by (simp add: length_subslice)
    then obtain b where b: "b \<in> set (subslice (queryNormalized ctx) (queryWordStarts ctx ! 0)
        (queryWordEnds ctx ! 0))"
      by (cases "subslice (queryNormalized ctx) (queryWordStarts ctx ! 0)
        (queryWordEnds ctx ! 0)") auto
    then have "b \<in> set (queryNormalized ctx)" by (rule subsetD [OF set_subslice])
    moreover from b j(2) have "b \<in> set (subslice dn (ds ! j) (de ! j))" by simp
    then have "b \<in> set dn" by (rule subsetD [OF set_subslice])
    ultimately show ?thesis by (auto simp add: containsAnyQueryBytes_iff)
  qed
  have "scoreDocument doc ctx =
      (2 * real (queryWordCount ctx) + real_of_int (int (queryWordCount ctx) - 1) * 0.5, ctx2)"
    using ne w bytes loop [unfolded ctx2_def ctx1_def]
    by (simp add: scoreDocument_def Let_def dn_def [symmetric] sp ctx2_def ctx1_def)
  then show ?thesis by (simp add: algebra_simps)
qed

lemmas words_eval = B_def normalizeText_def normalizeText_loop.simps lowerASCII_def
  splitWords_def splitWords_loop.simps wordBoundaryLUT_def queryNormalized_len_def
  docNormalized_len_def queryWords_len_def docWords_len_def subslice_def textWords_def
  queryWords_def docWords_def Let_def upt_conv_Cons

text \<open>
  The first test of \<^verbatim>\<open>scoreDocument\<close>, \<^verbatim>\<open>len(text) == 0 || ctx.queryWordCount == 0\<close>: an
  empty text and a query without a word score 0, before any word is compared. The
  all-exact branch is reached behind this test, with at least one query word.
\<close>

lemma scoreDocument_guard:
  "doc = [] \<or> queryWordCount ctx = 0 \<Longrightarrow> scoreDocument doc ctx = (0, ctx)"
  by (auto simp add: scoreDocument_def)

text \<open>
  Claim C5: for every query and every document, when every query word is equal to a word
  of the document, \<^verbatim>\<open>scoreDocument\<close> returns \<open>2.0 * W + 0.5 * (W - 1)\<close> for the \<open>W\<close> words of
  the query, and nothing else is added: no substring and no cross-word bonus. The query
  has a word, as it has whenever the word loop is reached. The words are those that
  \<^verbatim>\<open>normalizeText\<close> and \<^verbatim>\<open>splitWords\<close> produce within the sizes of the scratch arrays.
  Scores are reals here; for up to 128 query words the value is exact in \<^verbatim>\<open>float32\<close> as
  well.
\<close>

theorem scoreDocument_all_exact:
  assumes "queryWords query \<noteq> []"
    and "set (queryWords query) \<subseteq> set (docWords doc)"
  shows "fst (scoreDocument doc (prepareQuery query)) =
     2 * real (length (queryWords query)) + 0.5 * (real (length (queryWords query)) - 1)"
proof -
  have l: "queryWordCount (prepareQuery query) = length (queryWords query)"
    using arg_cong [OF prepareQuery_words [of query], of length] by simp
  have "subslice (queryNormalized (prepareQuery query))
          (queryWordStarts (prepareQuery query) ! i) (queryWordEnds (prepareQuery query) ! i)
        \<in> set (docWords doc)" if "i < queryWordCount (prepareQuery query)" for i
  proof -
    from that have "map (\<lambda>i. subslice (queryNormalized (prepareQuery query))
          (queryWordStarts (prepareQuery query) ! i) (queryWordEnds (prepareQuery query) ! i))
        [0..<queryWordCount (prepareQuery query)] ! i \<in> set (queryWords query)"
      unfolding prepareQuery_words using l by simp
    with that assms(2) show ?thesis by auto
  qed
  from scoreDocument_all_exact_ctx [OF prepareQuery_spans _ this] assms(1) l
  show ?thesis by simp
qed

theorem scoreDocument_all_exact_witness:
  "queryWords (B ''ab cd'') \<noteq> []
   \<and> set (queryWords (B ''ab cd'')) \<subseteq> set (docWords (B ''CD, ab''))
   \<and> fst (scoreDocument (B ''CD, ab'') (prepareQuery (B ''ab cd''))) = 4.5"
  using scoreDocument_all_exact [of "B ''ab cd''" "B ''CD, ab''"]
  by (simp add: words_eval)

section \<open>Claims about the two search paths\<close>


text \<open>
  The corpus is unchanged between the calls: the cache of the engine, if it has one, holds
  only entries of this corpus.
\<close>

definition cacheFrom :: "RuntimeSearch \<Rightarrow> (gostring \<times> gostring) list \<Rightarrow> bool" where
  "cacheFrom rs data \<longleftrightarrow>
     (case cachedData rs of None \<Rightarrow> True | Some cd \<Rightarrow> list_all (\<lambda>e. e \<in> set data) cd)"

text \<open>A result is scored from the corpus, and two result lists agree on common identifiers.\<close>

definition scoredFrom :: "(gostring \<times> gostring) list \<Rightarrow> gostring \<Rightarrow> SearchResult \<Rightarrow> bool" where
  "scoredFrom data query r \<longleftrightarrow>
     (ID r, Text r) \<in> set data
     \<and> Score r = fst (scoreDocument (Text r) (prepareQuery query)) \<and> 0 < Score r"

definition agreeOnCommon :: "SearchResult list \<Rightarrow> SearchResult list \<Rightarrow> bool" where
  "agreeOnCommon xs ys \<longleftrightarrow>
     list_all (\<lambda>r. list_all (\<lambda>r'. ID r = ID r' \<longrightarrow> Score r = Score r' \<and> Text r = Text r') ys) xs"

lemma set_AList_update: "set (AList.update k v al) \<subseteq> insert (k, v) (set al)"
  by (induction al) auto

lemma buildIndex_trigrams_cachedData [simp]:
  "cachedData (buildIndex_trigrams docID i rs) = cachedData rs"
proof (induction docID i rs rule: buildIndex_trigrams.induct)
  case (1 docID i rs)
  then show ?case
    by (subst buildIndex_trigrams.simps) (simp add: Let_def)
qed

lemma buildIndex_words_cachedData [simp]:
  "cachedData (fold (\<lambda>i rs.
        if wordStarts ! i < wordEnds ! i \<and> wordEnds ! i \<le> indexBufferLen rs then
          rs\<lparr>cachedWordMap :=
               appendPosting (subslice (indexBuffer rs) (wordStarts ! i) (wordEnds ! i)) docID
                 (cachedWordMap rs)\<rparr>
        else rs) is rs) = cachedData rs"
  by (induction "is" arbitrary: rs) simp_all

lemma buildIndex_doc_cachedData:
  "cachedData (buildIndex_doc (docID, doc) rs) =
     map_option (AList.update docID doc) (cachedData rs)"
  by (simp add: buildIndex_doc_def Let_def split: prod.splits)

lemma buildIndex_fold_cacheFrom:
  "set ds \<subseteq> set data \<Longrightarrow> cacheFrom rs data \<Longrightarrow> cacheFrom (fold buildIndex_doc ds rs) data"
proof (induction ds arbitrary: rs)
  case Nil
  then show ?case by simp
next
  case (Cons a ds)
  obtain docID doc where a: "a = (docID, doc)" by (cases a)
  have "cacheFrom (buildIndex_doc (docID, doc) rs) data"
    using Cons.prems set_AList_update [of docID doc]
    by (auto simp add: cacheFrom_def buildIndex_doc_cachedData a list_all_iff
        split: option.splits)
  with Cons show ?case by (simp add: a)
qed

lemma buildIndex_cacheFrom: "cacheFrom (buildIndex rs data) data"
  unfolding buildIndex_def
  by (rule buildIndex_fold_cacheFrom) (simp_all add: cacheFrom_def)

lemma searchWithCache_cacheFrom:
  "cacheFrom rs data \<Longrightarrow> cacheFrom (fst (searchWithCache rs data ctx)) data"
  by (simp add: searchWithCache_def Let_def buildIndex_cacheFrom)

lemma cacheFrom_lookup:
  "cacheFrom rs data \<Longrightarrow> cacheLookup rs docID = Some doc \<Longrightarrow> (docID, doc) \<in> set data"
  by (auto simp add: cacheFrom_def cacheLookup_def list_all_iff split: option.splits
      dest: map_of_SomeD)

lemma searchCandidates_scored:
  assumes "cacheFrom rs data"
  shows "list_all (\<lambda>c. (fst (snd c), snd (snd c)) \<in> set data
        \<and> fst c = fst (scoreDocument (snd (snd c)) (prepareQuery query)) \<and> 0 < fst c)
      (cands (snd (searchCandidates rs data query useCache)))"
proof -
  let ?P = "\<lambda>c. (fst (snd c), snd (snd c)) \<in> set data
        \<and> fst c = fst (scoreDocument (snd (snd c)) (prepareQuery query)) \<and> 0 < fst c"
  have "cand_wf (snd (searchCandidates rs data query useCache))
       \<and> list_all ?P (cands (snd (searchCandidates rs data query useCache)))"
  proof (rule searchCandidates_all [where P = ?P])
    fix docID doc c
    assume "(docID, doc) \<in> set data" "queryPart c = queryPart (prepareQuery query)"
      "0 < fst (scoreDocument doc c)"
    then show "?P (fst (scoreDocument doc c), docID, doc)"
      using scoreDocument_cong [of c "prepareQuery query" doc] by simp
  next
    fix docID doc c
    assume l: "cacheLookup (fst (searchWithCache rs data (prepareQuery query))) docID = Some doc"
      and q: "queryPart c = queryPart (prepareQuery query)"
      and p: "0 < fst (scoreDocument doc c)"
    from cacheFrom_lookup [OF searchWithCache_cacheFrom [OF assms] l]
    have "(docID, doc) \<in> set data" .
    with q p show "?P (fst (scoreDocument doc c), docID, doc)"
      using scoreDocument_cong [of c "prepareQuery query" doc] by simp
  qed
  then show ?thesis by simp
qed

lemma performSearchOneAlloc_scored:
  assumes "cacheFrom rs data" "0 \<le> maxResults"
  shows "\<exists>res. fst (performSearchOneAlloc rs data query maxResults useCache) = Inr res
     \<and> list_all (scoredFrom data query) res"
proof -
  from performSearchOneAlloc_results [OF assms(2)] obtain res where
    r: "fst (performSearchOneAlloc rs data query maxResults useCache) = Inr res"
    and m: "map resultCand res =
         take (nat maxResults) (cands (snd (searchCandidates rs data query useCache)))"
    by blast
  from results_all [OF m searchCandidates_scored [OF assms(1)]] r show ?thesis
    by (auto simp add: resultCand_def scoredFrom_def list_all_iff)
qed

lemma scoredFrom_agree:
  assumes "distinct (map fst data)"
    and "list_all (scoredFrom data query) xs" "list_all (scoredFrom data query) ys"
  shows "agreeOnCommon xs ys"
proof -
  have "Score r = Score r' \<and> Text r = Text r'"
    if "scoredFrom data query r" "scoredFrom data query r'" "ID r = ID r'" for r r'
  proof -
    from that have "(ID r, Text r) \<in> set data" "(ID r, Text r') \<in> set data"
      by (simp_all add: scoredFrom_def)
    with assms(1) have "Text r = Text r'"
      by (meson eq_key_imp_eq_value)
    with that show ?thesis by (simp add: scoredFrom_def)
  qed
  with assms(2,3) show ?thesis
    by (auto simp add: agreeOnCommon_def list_all_iff)
qed

text \<open>
  A corpus of two documents, after the scenario of the specification: \<open>user1\<close> has the
  word \<open>Zephen\<close>, \<open>user2\<close> the word \<open>Zeph\<close>.
\<close>

definition twoDocs :: "(gostring \<times> gostring) list" where
  "twoDocs = [(B ''user1'', B ''Zephen''), (B ''user2'', B ''Zeph'')]"

lemmas search_eval = B_def normalizeText_def normalizeText_loop.simps lowerASCII_def
  splitWords_def splitWords_loop.simps wordBoundaryLUT_def prepareQuery_def emptyContext_def
  queryNormalized_len_def docNormalized_len_def queryWords_len_def docWords_len_def
  candidates_len_def candidateSet_len_def indexBuffer_len_def wordSize_def memEqual_def
  containsAnyQueryBytes_def trigramWord_def containsTrigram_def containsSubsequence_def
  scoreDocument_docWord_def scoreSubstring_loop.simps scoreSubstring_def
  scoreReversedWords_def scoreDocument_def subslice_def
  NewRuntimeSearch_def appendPosting_def buildIndex_trigrams.simps buildIndex_doc_def
  buildIndex_def searchDirect_def addToCandidateSet_search.simps findCandidates_rarest_def
  findCandidates_prefix_def findCandidates_words_def findCandidates_trigrams.simps
  findCandidates_def scoreCandidates_def searchWithCache_def
  insertionSort_shift.simps insertionSort_step_def insertionSort_def sortCandidates_def
  resultAt_def convertToResultsOneAlloc_def searchCandidates_def performSearchOneAlloc_def
  Let_def upt_conv_Cons

text \<open>
  Claim C1, as stated: for every corpus and query the uncached path and the cached path
  return the same identifiers with the same scores. For the query \<open>Zeph\<close> the uncached
  path scores every document and returns \<open>user2\<close> (exact word, 2) and \<open>user1\<close> (prefix, 1).
  The cached path takes its candidates from the index: \<open>zeph\<close> is the rarest query word,
  its posting list is \<open>user2\<close>, the scan for prefixes is run for the other query words
  only, and the trigrams are tried only when there is no candidate. It returns \<open>user2\<close>
  alone.
\<close>

theorem search_paths_differ_counterexample:
  "fst (performSearchOneAlloc NewRuntimeSearch twoDocs (B ''Zeph'') 2 False) =
     Inr [\<lparr>ID = B ''user2'', Text = B ''Zeph'', Score = 2\<rparr>,
          \<lparr>ID = B ''user1'', Text = B ''Zephen'', Score = 1\<rparr>]
   \<and> fst (performSearchOneAlloc NewRuntimeSearch twoDocs (B ''Zeph'') 2 True) =
     Inr [\<lparr>ID = B ''user2'', Text = B ''Zeph'', Score = 2\<rparr>]"
  by (simp add: twoDocs_def search_eval cong: let_weak_cong)

text \<open>
  Claim C1, amended: when the corpus is unchanged between the calls (the cache of the
  engine, if it has one, holds only entries of this corpus), every result of the uncached
  path and every result of the cached path is a document of the corpus with its text and
  with the score that \<^verbatim>\<open>scoreDocument\<close> gives this text for the query, which is positive;
  so an identifier that both paths return has the same text and the same score in both.
  The sets of identifiers may differ.
\<close>

theorem search_paths_agree_on_common:
  assumes "distinct (map fst data)" "cacheFrom rs data" "0 \<le> maxResults"
  shows "\<exists>direct cached.
      fst (performSearchOneAlloc rs data query maxResults False) = Inr direct
    \<and> fst (performSearchOneAlloc rs data query maxResults True) = Inr cached
    \<and> list_all (scoredFrom data query) direct
    \<and> list_all (scoredFrom data query) cached
    \<and> agreeOnCommon direct cached"
proof -
  from performSearchOneAlloc_scored [OF assms(2,3), of query False] obtain direct where
    d: "fst (performSearchOneAlloc rs data query maxResults False) = Inr direct"
      "list_all (scoredFrom data query) direct"
    by blast
  from performSearchOneAlloc_scored [OF assms(2,3), of query True] obtain cached where
    c: "fst (performSearchOneAlloc rs data query maxResults True) = Inr cached"
      "list_all (scoredFrom data query) cached"
    by blast
  from scoredFrom_agree [OF assms(1) d(2) c(2)] d c show ?thesis by blast
qed
theorem search_paths_agree_on_common_witness:
  "distinct (map fst twoDocs) \<and> cacheFrom NewRuntimeSearch twoDocs \<and> (0 :: int) \<le> 2
   \<and> (\<exists>direct cached.
      fst (performSearchOneAlloc NewRuntimeSearch twoDocs (B ''Zeph'') 2 False) = Inr direct
    \<and> fst (performSearchOneAlloc NewRuntimeSearch twoDocs (B ''Zeph'') 2 True) = Inr cached
    \<and> list_all (scoredFrom twoDocs (B ''Zeph'')) direct
    \<and> list_all (scoredFrom twoDocs (B ''Zeph'')) cached
    \<and> agreeOnCommon direct cached)"
  using search_paths_agree_on_common [of twoDocs NewRuntimeSearch 2 "B ''Zeph''"]
  by (simp add: twoDocs_def cacheFrom_def NewRuntimeSearch_def B_def)

end
